theory Spec2Isabelle
  imports Main "HOL-Library.AList" "HOL-Library.Char_ord" "HOL-Library.List_Lexorder"
begin

section \<open>CsvDB: the file-backed store of powerapi (src/powerapi/database/csvdb.py)\<close>

text \<open>
  The theory embeds the class \<open>CsvDB\<close>: its writer (\<open>save\<close>), its registration
  operations, \<open>connect\<close> and the merge iteration \<open>__next__\<close>.  Exceptions are values of
  the type \<open>exc\<close>; a method that mutates the object takes the object's state and returns
  the state it leaves behind, also when it raises.  The dictionaries whose items are
  enumerated (a report, a field map, a row) are association lists with distinct keys in
  insertion order; \<open>tmp_read\<close> and the disk, which are only looked up and updated, are
  maps.  A string is a sequence of characters with code points below 256, ordered as by
  Python's \<open>sorted\<close>.  Where the behaviour depends on the interpreter, the one taken is
  CPython 3.11 or later with its default settings, on a POSIX system.
\<close>

subsection \<open>Exceptions and Python values\<close>

datatype exc =
    StopIteration
  | CsvBadFilePathError
  | CsvBadCommonKeysError
  | HeaderAreNotTheSameError string
  | FileNotFoundError
  | PermissionError
  | TypeError
  | KeyError
  | ValueError
  | AttributeError
  | IndexError

text \<open>The values a decoded report is made of: scalars and nested dictionaries.\<close>

datatype pyval =
    PNone
  | PInt int
  | PStr string
  | PDict "(string \<times> pyval) list"

type_synonym pydict = "(string \<times> pyval) list"

subsection \<open>The file system\<close>

text \<open>
  A csv file is held as the list of records that \<open>csv.writer\<close> has appended to it (a
  record is a list of cell texts, a blank line is the empty record); the quoting of the
  text format is the csv module's and is not represented.  A file that cannot be opened
  for lack of permission has \<open>readable = False\<close>; a file that can be read can be appended
  to.  The disk holds regular files only: the directory that \<open>os.makedirs\<close> creates in
  \<open>save\<close> has no representation.
\<close>

record disk_file =
  readable :: bool
  records :: "string list list"

type_synonym disk = "string \<rightharpoonup> disk_file"

text \<open>
  Every file is opened in text mode without \<open>newline=''\<close> (lines 218, 257 and 269).  What
  is written keeps its carriage returns (the line separator of the system is the line
  feed); what is read has its newlines translated: a carriage return, with the line feed
  that follows it if there is one, is read as a single line feed.  Inside a quoted cell
  this changes the text of the cell; the division of the file into records and cells is
  not affected.
\<close>

fun universal_newlines :: "string \<Rightarrow> string" where
  "universal_newlines [] = []"
| "universal_newlines [c] = [if c = CHR 0x0D then CHR 0x0A else c]"
| "universal_newlines (c # c' # cs) =
     (if c = CHR 0x0D
      then (if c' = CHR 0x0A then CHR 0x0A # universal_newlines cs
            else CHR 0x0A # universal_newlines (c' # cs))
      else c # universal_newlines (c' # cs))"

definition text_mode :: "string list list \<Rightarrow> string list list" where
  "text_mode rows = map (map universal_newlines) rows"

text \<open>\<open>open(path)\<close>, as far as the content read through it is concerned.\<close>

definition open_read :: "disk \<Rightarrow> string \<Rightarrow> exc + string list list" where
  "open_read d p =
     (case d p of
        None \<Rightarrow> Inl FileNotFoundError
      | Some f \<Rightarrow> if readable f then Inr (text_mode (records f)) else Inl PermissionError)"

text \<open>Writing records through a handle opened with \<open>open(path, 'a')\<close>, which creates a
  missing file.\<close>

definition append_records :: "string \<Rightarrow> string list list \<Rightarrow> disk \<Rightarrow> disk" where
  "append_records p rs d =
     d(p \<mapsto> (case d p of
               None \<Rightarrow> \<lparr>readable = True, records = rs\<rparr>
             | Some f \<Rightarrow> f\<lparr>records := records f @ rs\<rparr>))"

text \<open>\<open>csv.DictReader.fieldnames\<close>: the first record of the file, \<open>None\<close> when the file
  has no record.\<close>

definition fieldnames_of :: "string list list \<Rightarrow> string list option" where
  "fieldnames_of rows = (case rows of [] \<Rightarrow> None | r # _ \<Rightarrow> Some r)"

subsection \<open>The report model (codec) and the imported constants\<close>

text \<open>
  The report model is an external collaborator of the store: \<open>to_csvdb\<close> expands a
  serialized report into named groups of field maps (the values are the cell texts that
  the csv writer emits for them), \<open>from_csvdb\<close> decodes a row read from the file of the
  given base name.
\<close>

datatype cell = Text string | Missing | Extra "string list"

text \<open>A row as \<open>csv.DictReader\<close> returns it: the key \<open>None\<close> is the reader's \<open>restkey\<close>,
  the value \<open>Missing\<close> its \<open>restval\<close>.\<close>

type_synonym csv_dict = "(string option \<times> cell) list"

record report_model =
  to_csvdb :: "pydict \<Rightarrow> (string \<times> (string \<times> string) list) list"
  from_csvdb :: "string \<Rightarrow> csv_dict \<Rightarrow> pydict"

text \<open>Modelled from the spec: \<open>KEYS_COMMON\<close> is imported from
  \<open>powerapi.report_model.report_model\<close>, which is not part of the sources at hand.  The spec
  gives the required common field names, fixed and in this order, as
  \<open>timestamp, sensor, target, socket, cpu\<close>.\<close>

definition KEYS_COMMON :: "string list" where
  "KEYS_COMMON = [''timestamp'', ''sensor'', ''target'', ''socket'', ''cpu'']"

text \<open>Modelled from the spec: \<open>utils.timestamp_to_datetime\<close> is imported from
  \<open>powerapi.utils\<close>, which is not part of the sources at hand.  The spec says that the
  integer timestamp is converted to an internal time representation; the representation
  taken here is the integer itself, with its order.\<close>

definition timestamp_to_datetime :: "int \<Rightarrow> int" where
  "timestamp_to_datetime t = t"

text \<open>Modelled from the spec: \<open>utils.dict_merge\<close> is imported from \<open>powerapi.utils\<close>, which
  is not part of the sources at hand.  The spec describes a deep union into the first
  dictionary: a key of the second dictionary that both hold as nested mappings is merged
  recursively, any other key of the second dictionary is written into the first, the most
  recent write winning.\<close>

fun dict_merge :: "pydict \<Rightarrow> pydict \<Rightarrow> pydict" where
  "dict_merge d1 [] = d1"
| "dict_merge d1 ((k, PDict b) # rest) =
     (case map_of d1 k of
        Some (PDict a) \<Rightarrow> dict_merge (AList.update k (PDict (dict_merge a b)) d1) rest
      | _ \<Rightarrow> dict_merge (AList.update k (PDict b) d1) rest)"
| "dict_merge d1 ((k, v) # rest) = dict_merge (AList.update k v d1) rest"

subsection \<open>The store object\<close>

text \<open>
  An entry of \<open>tmp_read\<close>.  \<open>next_line\<close> is the empty list after \<open>add_file\<close>, and \<open>None\<close>
  or a row after \<open>connect\<close>.  The file object keeps whether it is closed and how many
  records have been read through it; the \<open>DictReader\<close> of an entry reads the file object of
  the same entry (the two are assigned together) and keeps the field names once read.
  The key \<open>'file'\<close> of an entry is the field \<open>fileobj\<close>; the methods \<open>_next\<close> and
  \<open>__next__\<close> are \<open>next_row\<close> and \<open>next_merged_record\<close>.
\<close>

datatype next_line = EmptyList | NoneLine | Row csv_dict

record file_obj =
  closed :: bool
  pos :: nat

record dict_reader =
  fieldnames :: "string list option"

record entry =
  next_line :: next_line
  reader :: "dict_reader option"
  fileobj :: "file_obj option"

record store =
  filenames :: "string list"
  current_path :: string
  tmp_read :: "string \<rightharpoonup> entry"
  saved_timestamp :: int

subsection \<open>The writer: \<open>save\<close>\<close>

text \<open>Line 254: \<open>KEYS_COMMON + sorted(list(set(keys) - set(KEYS_COMMON)))\<close>.\<close>

definition header_of :: "(string \<times> string) list \<Rightarrow> string list" where
  "header_of values =
     KEYS_COMMON @ sorted_list_of_set (set (map fst values) - set KEYS_COMMON)"

text \<open>\<open>csv.DictWriter._dict_to_list\<close>: a key outside the field names is a \<open>ValueError\<close>, a
  field name without a value is written as the empty text.\<close>

definition dict_to_list :: "string list \<Rightarrow> (string \<times> string) list \<Rightarrow> exc + string list" where
  "dict_to_list fnames values =
     (if \<exists>k \<in> set (map fst values). k \<notin> set fnames then Inl ValueError
      else Inr (map (\<lambda>k. case map_of values k of Some v \<Rightarrow> v | None \<Rightarrow> []) fnames))"

text \<open>Lines 269 to 274: the header line when none exists, then the row.\<close>

definition write_row ::
  "string \<Rightarrow> string list \<Rightarrow> bool \<Rightarrow> (string \<times> string) list \<Rightarrow> disk \<Rightarrow> exc option \<times> disk" where
  "write_row p header header_exist values d =
     (let d0 = append_records p [] d;
          d1 = (if \<not> header_exist then append_records p [header] d0 else d0)
      in case dict_to_list header values of
           Inl e \<Rightarrow> (Some e, d1)
         | Inr row \<Rightarrow> (None, append_records p [row] d1))"

text \<open>Lines 251 to 274, the body of the loop over the groups.\<close>

definition save_file :: "string \<Rightarrow> (string \<times> string) list \<Rightarrow> disk \<Rightarrow> exc option \<times> disk" where
  "save_file p values d =
     (let header = header_of values in
      case open_read d p of
        Inl e \<Rightarrow>
          if e = FileNotFoundError then write_row p header False values d
          else (Some e, d)
      | Inr rows \<Rightarrow>
          let fn = fieldnames_of rows;
              header_exist = (case fn of None \<Rightarrow> False | Some f \<Rightarrow> f \<noteq> [])
          in if Some header \<noteq> fn then (Some (HeaderAreNotTheSameError p), d)
             else write_row p header header_exist values d)"

definition group_path :: "string \<Rightarrow> string \<Rightarrow> string" where
  "group_path rep_path filename = rep_path @ ''/'' @ filename @ ''.csv''"

fun save_groups ::
  "string \<Rightarrow> (string \<times> (string \<times> string) list) list \<Rightarrow> disk \<Rightarrow> exc option \<times> disk" where
  "save_groups rep_path [] d = (None, d)"
| "save_groups rep_path ((filename, values) # data) d =
     (case save_file (group_path rep_path filename) values d of
        (Some e, d') \<Rightarrow> (Some e, d')
      | (None, d') \<Rightarrow> save_groups rep_path data d')"

text \<open>\<open>serialized_report[key]\<close> used as a string.\<close>

definition str_item :: "pydict \<Rightarrow> string \<Rightarrow> exc + string" where
  "str_item r k =
     (case map_of r k of
        None \<Rightarrow> Inl KeyError
      | Some (PStr s) \<Rightarrow> Inr s
      | Some _ \<Rightarrow> Inl TypeError)"

definition rep_path_of :: "store \<Rightarrow> string \<Rightarrow> string \<Rightarrow> string" where
  "rep_path_of self sensor target = current_path self @ sensor @ ''-'' @ target"

definition save ::
  "report_model \<Rightarrow> pydict \<Rightarrow> store \<times> disk \<Rightarrow> exc option \<times> store \<times> disk" where
  "save rm serialized_report sd =
     (let (self, d) = sd;
          data = to_csvdb rm serialized_report
      in case str_item serialized_report ''sensor'' of
           Inl e \<Rightarrow> (Some e, self, d)
         | Inr sensor \<Rightarrow>
             (case str_item serialized_report ''target'' of
                Inl e \<Rightarrow> (Some e, self, d)
              | Inr target \<Rightarrow>
                  (let rep_path = rep_path_of self sensor target;
                       (r, d') = save_groups rep_path data d
                   in (r, self, d'))))"

fun save_many ::
  "report_model \<Rightarrow> pydict list \<Rightarrow> store \<times> disk \<Rightarrow> exc option \<times> store \<times> disk" where
  "save_many rm [] sd = (None, sd)"
| "save_many rm (r # rs) sd =
     (case save rm r sd of
        (Some e, sd') \<Rightarrow> (Some e, sd')
      | (None, sd') \<Rightarrow> save_many rm rs sd')"

subsection \<open>Construction and registration\<close>

text \<open>\<open>__init__\<close>: the base path always ends with a separator.\<close>

definition init :: "string \<Rightarrow> exc + store" where
  "init path =
     (if path = [] then Inl IndexError
      else Inr \<lparr>filenames = [],
                current_path = (if last path = CHR ''/'' then path else path @ ''/''),
                tmp_read = Map.empty,
                saved_timestamp = timestamp_to_datetime 0\<rparr>)"

definition add_file :: "string \<Rightarrow> store \<Rightarrow> exc option \<times> store" where
  "add_file filename self =
     (if filename = [] then (Some IndexError, self)
      else let filename' = (if hd filename = CHR ''/'' then filename
                            else current_path self @ filename)
           in (None, self\<lparr>filenames := filenames self @ [filename'],
                          tmp_read := (tmp_read self)(filename' \<mapsto>
                            \<lparr>next_line = EmptyList, reader = None, fileobj = None\<rparr>)\<rparr>))"

fun add_files :: "string list \<Rightarrow> store \<Rightarrow> exc option \<times> store" where
  "add_files [] self = (None, self)"
| "add_files (filename # rest) self =
     (case add_file filename self of
        (Some e, self') \<Rightarrow> (Some e, self')
      | (None, self') \<Rightarrow> add_files rest self')"

definition clean_files :: "store \<Rightarrow> store" where
  "clean_files self = self\<lparr>filenames := [], tmp_read := Map.empty\<rparr>"

subsection \<open>Reading rows: \<open>csv.DictReader\<close> and \<open>_next\<close>\<close>

text \<open>The records that a handle on the file reads; a file is taken to stay on the disk
  while a handle on it is open.\<close>

definition read_records :: "disk \<Rightarrow> string \<Rightarrow> string list list" where
  "read_records d p = (case d p of None \<Rightarrow> [] | Some f \<Rightarrow> text_mode (records f))"

text \<open>\<open>dict(zip(fieldnames, row))\<close>, then the \<open>restkey\<close> of a long row or the \<open>restval\<close>
  of a short one.\<close>

definition make_dict :: "string list \<Rightarrow> string list \<Rightarrow> csv_dict" where
  "make_dict fnames row =
     (let d = fold (\<lambda>(k, v). AList.update (Some k) (Text v)) (zip fnames row) [];
          lf = length fnames;
          lr = length row
      in if lf < lr then AList.update None (Extra (drop lf row)) d
         else if lr < lf then fold (\<lambda>k. AList.update (Some k) Missing) (drop lr fnames) d
         else d)"

text \<open>\<open>DictReader.__next__\<close> over the records of the file: the first record read through
  the reader gives the field names, blank records are skipped, the end of the file is
  \<open>StopIteration\<close>, a closed file is a \<open>ValueError\<close>.\<close>

definition reader_next ::
  "string list list \<Rightarrow> dict_reader \<times> file_obj \<Rightarrow> (exc + csv_dict) \<times> dict_reader \<times> file_obj" where
  "reader_next rows rf =
     (let (r, f) = rf in
      if closed f then (Inl ValueError, r, f)
      else
        let (r1, f1) =
              (case fieldnames r of
                 Some _ \<Rightarrow> (r, f)
               | None \<Rightarrow>
                   (case drop (pos f) rows of
                      [] \<Rightarrow> (r, f)
                    | h # _ \<Rightarrow> (r\<lparr>fieldnames := Some h\<rparr>, f\<lparr>pos := Suc (pos f)\<rparr>)));
            rest = drop (pos f1) rows;
            blanks = takeWhile (\<lambda>x. x = []) rest
        in case dropWhile (\<lambda>x. x = []) rest of
             [] \<Rightarrow> (Inl StopIteration, r1, f1\<lparr>pos := pos f1 + length blanks\<rparr>)
           | row # _ \<Rightarrow>
               (case fieldnames r1 of
                  None \<Rightarrow> (Inl TypeError, r1, f1\<lparr>pos := Suc (pos f1 + length blanks)\<rparr>)
                | Some fnames \<Rightarrow>
                    (Inr (make_dict fnames row), r1,
                     f1\<lparr>pos := Suc (pos f1 + length blanks)\<rparr>)))"

text \<open>\<open>_next\<close>: the next row of the file, \<open>None\<close> at its end.\<close>

definition next_row :: "disk \<Rightarrow> string \<Rightarrow> store \<Rightarrow> (exc + next_line) \<times> store" where
  "next_row d path_file self =
     (case tmp_read self path_file of
        None \<Rightarrow> (Inl KeyError, self)
      | Some e \<Rightarrow>
          (case (reader e, fileobj e) of
             (Some r, Some f) \<Rightarrow>
               (let (res, r', f') = reader_next (read_records d path_file) (r, f);
                    self' = self\<lparr>tmp_read := (tmp_read self)(path_file \<mapsto>
                              e\<lparr>reader := Some r', fileobj := Some f'\<rparr>)\<rparr>
                in case res of
                     Inr row \<Rightarrow> (Inr (Row row), self')
                   | Inl x \<Rightarrow> if x = StopIteration then (Inr NoneLine, self')
                              else (Inl x, self'))
           | _ \<Rightarrow> (Inl AttributeError, self)))"

text \<open>Assigning \<open>self.tmp_read[path_file]['next_line']\<close>.\<close>

definition set_next_line :: "string \<Rightarrow> next_line \<Rightarrow> store \<Rightarrow> store" where
  "set_next_line path_file nl self =
     (case tmp_read self path_file of
        None \<Rightarrow> self
      | Some e \<Rightarrow> self\<lparr>tmp_read := (tmp_read self)(path_file \<mapsto> e\<lparr>next_line := nl\<rparr>)\<rparr>)"

subsection \<open>Timestamps\<close>

text \<open>Python's \<open>int\<close> on a string: surrounding white space is dropped (the six ASCII
  white space characters, and the next line and no-break space characters 133 and 160; the
  separators 28 to 31 are not dropped), a sign may come first, the digits may be grouped
  by single underscores, and a text of more than 4300 digits is refused (the default of
  \<open>sys.set_int_max_str_digits\<close>).  The only decimal digits below code point 256 are the
  ASCII ones.\<close>

definition is_space :: "char \<Rightarrow> bool" where
  "is_space c = (of_char c \<in> {9, 10, 11, 12, 13, 32, 133, 160 :: nat})"

definition is_digit :: "char \<Rightarrow> bool" where
  "is_digit c = (CHR ''0'' \<le> c \<and> c \<le> CHR ''9'')"

fun digits_ok :: "bool \<Rightarrow> string \<Rightarrow> bool" where
  "digits_ok prev_digit [] = prev_digit"
| "digits_ok prev_digit (c # cs) =
     (if is_digit c then digits_ok True cs
      else if c = CHR ''_'' \<and> prev_digit then digits_ok False cs
      else False)"

definition digits_value :: "string \<Rightarrow> int" where
  "digits_value cs =
     foldl (\<lambda>a c. 10 * a + (int (of_char c) - 48)) 0 (filter is_digit cs)"

definition py_int :: "string \<Rightarrow> int option" where
  "py_int s =
     (let t = rev (dropWhile is_space (rev (dropWhile is_space s)));
          (neg, ds) = (case t of
                         [] \<Rightarrow> (False, [])
                       | c # cs \<Rightarrow> if c = CHR ''-'' then (True, cs)
                                  else if c = CHR ''+'' then (False, cs)
                                  else (False, t))
      in if digits_ok False ds \<and> length (filter is_digit ds) \<le> 4300
         then Some (if neg then - digits_value ds else digits_value ds)
         else None)"

text \<open>\<open>utils.timestamp_to_datetime(int(row['timestamp']))\<close> on a lookahead that is not
  \<open>None\<close>.\<close>

definition row_timestamp :: "csv_dict \<Rightarrow> exc + int" where
  "row_timestamp row =
     (case map_of row (Some ''timestamp'') of
        None \<Rightarrow> Inl KeyError
      | Some (Text s) \<Rightarrow>
          (case py_int s of
             None \<Rightarrow> Inl ValueError
           | Some i \<Rightarrow> Inr (timestamp_to_datetime i))
      | Some _ \<Rightarrow> Inl TypeError)"

definition line_timestamp :: "next_line \<Rightarrow> exc + int" where
  "line_timestamp nl =
     (case nl of
        Row row \<Rightarrow> row_timestamp row
      | _ \<Rightarrow> Inl TypeError)"

subsection \<open>\<open>connect\<close>\<close>

text \<open>Lines 211 to 213: every file that is open is closed.\<close>

fun close_files :: "string list \<Rightarrow> store \<Rightarrow> exc option \<times> store" where
  "close_files [] self = (None, self)"
| "close_files (path_file # rest) self =
     (case tmp_read self path_file of
        None \<Rightarrow> (Some KeyError, self)
      | Some e \<Rightarrow>
          close_files rest
            (case fileobj e of
               None \<Rightarrow> self
             | Some f \<Rightarrow> self\<lparr>tmp_read := (tmp_read self)(path_file \<mapsto>
                           e\<lparr>fileobj := Some (f\<lparr>closed := True\<rparr>)\<rparr>)\<rparr>))"

text \<open>Lines 226 to 228: \<open>key not in next_line\<close> for every common key; on the lookahead
  \<open>None\<close> the membership test is a \<open>TypeError\<close>.\<close>

fun check_common_keys :: "string list \<Rightarrow> next_line \<Rightarrow> exc option" where
  "check_common_keys [] nl = None"
| "check_common_keys (key # keys) nl =
     (case nl of
        NoneLine \<Rightarrow> Some TypeError
      | EmptyList \<Rightarrow> Some CsvBadCommonKeysError
      | Row row \<Rightarrow>
          if Some key \<notin> fst ` set row then Some CsvBadCommonKeysError
          else check_common_keys keys nl)"

text \<open>Lines 216 to 228: every file is opened and its first row read.\<close>

fun open_files :: "disk \<Rightarrow> string list \<Rightarrow> store \<Rightarrow> exc option \<times> store" where
  "open_files d [] self = (None, self)"
| "open_files d (path_file # rest) self =
     (case open_read d path_file of
        Inl x \<Rightarrow>
          if x = FileNotFoundError then (Some CsvBadFilePathError, self)
          else (Some x, self)
      | Inr _ \<Rightarrow>
          (case tmp_read self path_file of
             None \<Rightarrow> (Some KeyError, self)
           | Some e \<Rightarrow>
               (let self1 = self\<lparr>tmp_read := (tmp_read self)(path_file \<mapsto>
                              e\<lparr>reader := Some \<lparr>fieldnames = None\<rparr>,
                                fileobj := Some \<lparr>closed = False, pos = 0\<rparr>\<rparr>)\<rparr>
                in case next_row d path_file self1 of
                     (Inl x, self2) \<Rightarrow> (Some x, self2)
                   | (Inr nl, self2) \<Rightarrow>
                       (let self3 = set_next_line path_file nl self2
                        in case check_common_keys KEYS_COMMON nl of
                             Some x \<Rightarrow> (Some x, self3)
                           | None \<Rightarrow> open_files d rest self3))))"

definition connect :: "disk \<Rightarrow> store \<Rightarrow> exc option \<times> store" where
  "connect d self =
     (case close_files (filenames self) self of
        (Some x, self1) \<Rightarrow> (Some x, self1)
      | (None, self1) \<Rightarrow>
          (case open_files d (filenames self1) self1 of
             (Some x, self2) \<Rightarrow> (Some x, self2)
           | (None, self2) \<Rightarrow>
               (case filenames self2 of
                  [] \<Rightarrow> (None, self2)
                | path0 # _ \<Rightarrow>
                    (case tmp_read self2 path0 of
                       None \<Rightarrow> (Some KeyError, self2)
                     | Some e \<Rightarrow>
                         (case line_timestamp (next_line e) of
                            Inl x \<Rightarrow> (Some x, self2)
                          | Inr t \<Rightarrow> (None, self2\<lparr>saved_timestamp := t\<rparr>))))))"

subsection \<open>The merge iteration: \<open>__next__\<close>\<close>

text \<open>\<open>path_file.split('/')[-1]\<close>.\<close>

definition basename :: "string \<Rightarrow> string" where
  "basename p = rev (takeWhile (\<lambda>c. c \<noteq> CHR ''/'') (rev p))"

text \<open>The measure of the loop over one file: twice the number of records that the file
  object has not read, and one more when the lookahead is a row.\<close>

definition unread :: "disk \<Rightarrow> string \<Rightarrow> store \<Rightarrow> nat" where
  "unread d p self =
     (case tmp_read self p of
        None \<Rightarrow> 0
      | Some e \<Rightarrow>
          (case fileobj e of None \<Rightarrow> 0 | Some f \<Rightarrow> 2 * (length (read_records d p) - pos f))
          + (case next_line e of Row _ \<Rightarrow> 1 | _ \<Rightarrow> 0))"

lemma dropWhile_Cons_length:
  "dropWhile P xs = y # ys \<Longrightarrow> Suc (length (takeWhile P xs)) \<le> length xs"
proof -
  assume a: "dropWhile P xs = y # ys"
  have "length xs = length (takeWhile P xs) + length (dropWhile P xs)"
    by (metis length_append takeWhile_dropWhile_id)
  with a show ?thesis by simp
qed

lemma drop_blank_length:
  "dropWhile P (drop n rows) = y # ys \<Longrightarrow> Suc (n + length (takeWhile P (drop n rows))) \<le> length rows"
  using dropWhile_Cons_length[of P "drop n rows" y ys] by (cases "n \<le> length rows") auto

lemma reader_next_pos_le:
  "reader_next rows (r, f) = (res, r', f') \<Longrightarrow> pos f \<le> pos f'"
  by (auto simp: reader_next_def Let_def split: if_splits option.splits list.splits prod.splits)

lemma reader_next_pos_less:
  "reader_next rows (r, f) = (Inr row, r', f') \<Longrightarrow> pos f < pos f' \<and> pos f' \<le> length rows"
  by (auto simp: reader_next_def Let_def dest!: drop_blank_length
      split: if_splits option.splits list.splits prod.splits)

lemma next_row_Inr:
  assumes "next_row d p self = (Inr nl, self')" "tmp_read self p = Some e"
  obtains r f res r' f' where
    "reader e = Some r" "fileobj e = Some f"
    "reader_next (read_records d p) (r, f) = (res, r', f')"
    "self' = self\<lparr>tmp_read := (tmp_read self)(p \<mapsto> e\<lparr>reader := Some r', fileobj := Some f'\<rparr>)\<rparr>"
    "(\<exists>row. res = Inr row \<and> nl = Row row) \<or> (res = Inl StopIteration \<and> nl = NoneLine)"
  using assms
  by (auto simp: next_row_def Let_def split: option.splits prod.splits sum.splits if_splits)

lemma next_row_unread:
  assumes "next_row d p self = (Inr nl, self')" "tmp_read self p = Some e" "next_line e = Row row"
  shows "unread d p (set_next_line p nl self') < unread d p self"
proof -
  from assms(1,2) obtain r f res r' f' where
    e: "reader e = Some r" "fileobj e = Some f"
    and rn: "reader_next (read_records d p) (r, f) = (res, r', f')"
    and s': "self' = self\<lparr>tmp_read := (tmp_read self)(p \<mapsto> e\<lparr>reader := Some r', fileobj := Some f'\<rparr>)\<rparr>"
    and res: "(\<exists>row. res = Inr row \<and> nl = Row row) \<or> (res = Inl StopIteration \<and> nl = NoneLine)"
    by (rule next_row_Inr)
  from res show ?thesis
  proof
    assume "\<exists>row. res = Inr row \<and> nl = Row row"
    then obtain row' where "res = Inr row'" "nl = Row row'" by blast
    with rn have "pos f < pos f' \<and> pos f' \<le> length (read_records d p)"
      using reader_next_pos_less by blast
    then show ?thesis
      using assms(2,3) e s' \<open>nl = Row row'\<close>
      by (auto simp: unread_def set_next_line_def)
  next
    assume "res = Inl StopIteration \<and> nl = NoneLine"
    moreover from rn have "pos f \<le> pos f'" by (rule reader_next_pos_le)
    ultimately show ?thesis
      using assms(2,3) e s'
      by (auto simp: unread_def set_next_line_def)
  qed
qed

text \<open>Lines 170 to 197: the loop over the rows of one file, at the watermark
  \<open>current_timestamp\<close>, with the accumulator \<open>json\<close>.  The result is the exception raised,
  if any, the store and the accumulator.\<close>

function read_file ::
  "report_model \<Rightarrow> disk \<Rightarrow> int \<Rightarrow> string \<Rightarrow> store \<Rightarrow> pydict \<Rightarrow> exc option \<times> store \<times> pydict" where
  "read_file rm d current_timestamp path_file self json =
     (case tmp_read self path_file of
        None \<Rightarrow> (Some KeyError, self, json)
      | Some e \<Rightarrow>
          (case next_line e of
             NoneLine \<Rightarrow> (None, self, json)
           | EmptyList \<Rightarrow> (Some TypeError, self, json)
           | Row row \<Rightarrow>
               (case row_timestamp row of
                  Inl x \<Rightarrow> (Some x, self, json)
                | Inr ts \<Rightarrow>
                    if ts > current_timestamp then
                      (case filenames self of
                         [] \<Rightarrow> (Some IndexError, self, json)
                       | path0 # _ \<Rightarrow>
                           (None,
                            if path_file = path0 then self\<lparr>saved_timestamp := ts\<rparr> else self,
                            json))
                    else
                      (let json' = (if ts = current_timestamp
                                    then dict_merge json (from_csvdb rm (basename path_file) row)
                                    else json)
                       in case next_row d path_file self of
                            (Inl x, self') \<Rightarrow> (Some x, self', json')
                          | (Inr nl, self') \<Rightarrow>
                              read_file rm d current_timestamp path_file
                                (set_next_line path_file nl self') json'))))"
  by pat_completeness auto
termination
  apply (relation "measure (\<lambda>(rm, d, T, p, self, json). unread d p self)")
   apply simp
  apply (simp add: next_row_unread)
  done


lemmas read_file_unfold = read_file.simps

declare read_file.simps [simp del]

text \<open>Lines 167 to 197: the loop over the registered files.\<close>

fun read_files ::
  "report_model \<Rightarrow> disk \<Rightarrow> int \<Rightarrow> string list \<Rightarrow> store \<Rightarrow> pydict \<Rightarrow> exc option \<times> store \<times> pydict" where
  "read_files rm d current_timestamp [] self json = (None, self, json)"
| "read_files rm d current_timestamp (path_file # rest) self json =
     (case read_file rm d current_timestamp path_file self json of
        (Some x, self', json') \<Rightarrow> (Some x, self', json')
      | (None, self', json') \<Rightarrow> read_files rm d current_timestamp rest self' json')"

text \<open>\<open>__next__\<close>, lines 156 to 201: the merged record, or \<open>StopIteration\<close> when the
  accumulator is empty.\<close>

definition next_merged_record :: "report_model \<Rightarrow> disk \<Rightarrow> store \<Rightarrow> (exc + pydict) \<times> store" where
  "next_merged_record rm d self =
     (case read_files rm d (saved_timestamp self) (filenames self) self [] of
        (Some x, self', json) \<Rightarrow> (Inl x, self')
      | (None, self', json) \<Rightarrow>
          if json = [] then (Inl StopIteration, self') else (Inr json, self'))"

text \<open>The measure of the iteration: a call of \<open>__next__\<close> that returns a record has read
  a row.\<close>

definition total_unread :: "disk \<Rightarrow> store \<Rightarrow> nat" where
  "total_unread d self = (\<Sum>p \<in> set (filenames self). unread d p self)"

lemma unread_cong:
  "tmp_read self' p = tmp_read self p \<Longrightarrow> unread d p self' = unread d p self"
  by (simp add: unread_def)

lemma next_row_frame:
  "next_row d p self = (res, self') \<Longrightarrow>
     filenames self' = filenames self \<and> (\<forall>q. q \<noteq> p \<longrightarrow> tmp_read self' q = tmp_read self q)"
  by (auto simp: next_row_def Let_def split: option.splits prod.splits sum.splits if_splits)

lemma set_next_line_frame:
  "filenames (set_next_line p nl self) = filenames self \<and>
   (\<forall>q. q \<noteq> p \<longrightarrow> tmp_read (set_next_line p nl self) q = tmp_read self q)"
  by (auto simp: set_next_line_def split: option.splits)

lemma read_file_measure:
  "read_file rm d T p self json = (None, self', json') \<Longrightarrow>
     filenames self' = filenames self \<and>
     (\<forall>q. q \<noteq> p \<longrightarrow> tmp_read self' q = tmp_read self q) \<and>
     unread d p self' \<le> unread d p self \<and>
     (json' \<noteq> json \<longrightarrow> unread d p self' < unread d p self)"
proof (induction rm d T p self json rule: read_file.induct)
  case (1 rm d T p self json)
  show ?case
  proof (cases "tmp_read self p")
    case None
    with "1.prems" show ?thesis by (simp add: read_file_unfold)
  next
    case (Some e)
    show ?thesis
    proof (cases "next_line e")
      case EmptyList
      with Some "1.prems" show ?thesis by (simp add: read_file_unfold)
    next
      case NoneLine
      with Some "1.prems" show ?thesis by (simp add: read_file_unfold)
    next
      case (Row row)
      show ?thesis
      proof (cases "row_timestamp row")
        case (Inl x)
        with Some Row "1.prems" show ?thesis by (simp add: read_file_unfold)
      next
        case (Inr ts)
        show ?thesis
        proof (cases "ts > T")
          case True
          with Some Row Inr "1.prems" show ?thesis
            by (auto simp: read_file_unfold[of rm d T p self json] unread_def split: list.splits if_splits)
        next
          case False
          define j1 where "j1 = (if ts = T then dict_merge json (from_csvdb rm (basename p) row) else json)"
          obtain res self1 where nr: "next_row d p self = (res, self1)" by (cases "next_row d p self")
          with Some Row Inr False "1.prems" obtain nl where res: "res = Inr nl"
            by (cases res) (auto simp: read_file_unfold[of rm d T p self json] Let_def)
          with nr Some Row Inr False "1.prems"
          have rec: "read_file rm d T p (set_next_line p nl self1) j1 = (None, self', json')"
            by (simp add: read_file_unfold[of rm d T p self json] Let_def j1_def)
          have IH: "filenames self' = filenames (set_next_line p nl self1) \<and>
             (\<forall>q. q \<noteq> p \<longrightarrow> tmp_read self' q = tmp_read (set_next_line p nl self1) q) \<and>
             unread d p self' \<le> unread d p (set_next_line p nl self1) \<and>
             (json' \<noteq> j1 \<longrightarrow> unread d p self' < unread d p (set_next_line p nl self1))"
            by (rule "1.IH"[OF Some Row Inr False j1_def nr[symmetric] res rec])
          have dec: "unread d p (set_next_line p nl self1) < unread d p self"
            using next_row_unread[OF _ Some Row] nr res by simp
          from IH dec next_row_frame[OF nr] set_next_line_frame[of p nl self1]
          show ?thesis by auto
        qed
      qed
    qed
  qed
qed


lemma read_files_measure:
  "read_files rm d T ps self json = (None, self', json') \<Longrightarrow>
     filenames self' = filenames self \<and>
     (\<forall>q. q \<notin> set ps \<longrightarrow> tmp_read self' q = tmp_read self q) \<and>
     (\<forall>q. unread d q self' \<le> unread d q self) \<and>
     (json' \<noteq> json \<longrightarrow> (\<exists>q \<in> set ps. unread d q self' < unread d q self))"
proof (induction ps arbitrary: self json)
  case Nil
  then show ?case by simp
next
  case (Cons p ps)
  from Cons.prems obtain self1 j1 where
    one: "read_file rm d T p self json = (None, self1, j1)"
    and rest: "read_files rm d T ps self1 j1 = (None, self', json')"
    by (auto split: prod.splits option.splits)
  note m1 = read_file_measure[OF one]
  note m2 = Cons.IH[OF rest]
  have le1: "unread d q self1 \<le> unread d q self" for q
    using m1 unread_cong[of self1 q self d] by (cases "q = p") auto
  have le2: "unread d q self' \<le> unread d q self1" for q
    using m2 by blast
  have "\<exists>q \<in> set (p # ps). unread d q self' < unread d q self" if ne: "json' \<noteq> json"
  proof (cases "j1 = json")
    case True
    with ne m2 obtain q where q: "q \<in> set ps" "unread d q self' < unread d q self1" by auto
    with le1[of q] have "unread d q self' < unread d q self" by simp
    with q(1) show ?thesis by (intro bexI[of _ q]) simp_all
  next
    case False
    with m1 have "unread d p self1 < unread d p self" by blast
    with le2[of p] have "unread d p self' < unread d p self" by simp
    then show ?thesis by (intro bexI[of _ p]) simp_all
  qed
  moreover have "unread d q self' \<le> unread d q self" for q
    using le1[of q] le2[of q] by simp
  moreover have "filenames self' = filenames self" using m1 m2 by simp
  moreover have "\<forall>q. q \<notin> set (p # ps) \<longrightarrow> tmp_read self' q = tmp_read self q"
    using m1 m2 by auto
  ultimately show ?case by blast
qed

lemma next_merged_record_unread:
  assumes "next_merged_record rm d self = (Inr json, self')"
  shows "total_unread d self' < total_unread d self"
proof -
  from assms have
    rf: "read_files rm d (saved_timestamp self) (filenames self) self [] = (None, self', json)"
    and ne: "json \<noteq> []"
    by (auto simp: next_merged_record_def split: prod.splits option.splits if_splits)
  note m = read_files_measure[OF rf]
  from m ne obtain q where q: "q \<in> set (filenames self)" "unread d q self' < unread d q self"
    by auto
  have "(\<Sum>p \<in> set (filenames self). unread d p self') < (\<Sum>p \<in> set (filenames self). unread d p self)"
    by (rule sum_strict_mono_ex1) (use m q in auto)
  with m show ?thesis by (simp add: total_unread_def)
qed

text \<open>Calling \<open>__next__\<close> until it raises: the records returned, each with the value of
  \<open>current_timestamp\<close> in the call that returned it, then the exception that ended the
  iteration unless it is \<open>StopIteration\<close>, and the store.\<close>

function iterate ::
  "report_model \<Rightarrow> disk \<Rightarrow> store \<Rightarrow> (int \<times> pydict) list \<times> exc option \<times> store" where
  "iterate rm d self =
     (case next_merged_record rm d self of
        (Inl x, self') \<Rightarrow> ([], if x = StopIteration then None else Some x, self')
      | (Inr json, self') \<Rightarrow>
          (let (out, r, self'') = iterate rm d self'
           in ((saved_timestamp self, json) # out, r, self'')))"
  by pat_completeness auto
termination
  apply (relation "measure (\<lambda>(rm, d, self). total_unread d self)")
   apply simp
  apply (simp add: next_merged_record_unread[OF sym])
  done

text \<open>\<open>for record in db\<close>: \<open>__iter__\<close> connects the store, then the iteration runs.\<close>

definition iter_all ::
  "report_model \<Rightarrow> disk \<Rightarrow> store \<Rightarrow> (int \<times> pydict) list \<times> exc option \<times> store" where
  "iter_all rm d self =
     (case connect d self of
        (Some x, self') \<Rightarrow> ([], Some x, self')
      | (None, self') \<Rightarrow> iterate rm d self')"


subsection \<open>What the writer leaves on the disk\<close>

text \<open>The row that \<open>save\<close> writes for a field map.\<close>

definition row_of :: "(string \<times> string) list \<Rightarrow> string list" where
  "row_of values =
     map (\<lambda>k. case map_of values k of Some v \<Rightarrow> v | None \<Rightarrow> []) (header_of values)"

text \<open>The file exists, can be read, and the first record read from it is the header
  \<open>h\<close>.\<close>

definition has_header :: "disk \<Rightarrow> string \<Rightarrow> string list \<Rightarrow> bool" where
  "has_header d p h =
     (case d p of
        None \<Rightarrow> False
      | Some f \<Rightarrow> readable f \<and> fieldnames_of (text_mode (records f)) = Some h)"


text \<open>A text without carriage return, which is read back as it was written.\<close>

definition cr_free :: "string \<Rightarrow> bool" where
  "cr_free s = (CHR 0x0D \<notin> set s)"

subsection \<open>The rows still to come\<close>

text \<open>The rows of a file as its \<open>DictReader\<close> delivers them: the first record is the
  header, blank records are skipped.\<close>

definition file_rows :: "disk \<Rightarrow> string \<Rightarrow> csv_dict list" where
  "file_rows d p =
     (case read_records d p of
        [] \<Rightarrow> []
      | h # rs \<Rightarrow> map (make_dict h) (filter (\<lambda>r. r \<noteq> []) rs))"

text \<open>The timestamp of a row that has one; \<open>parses\<close> tells whether it has.\<close>

definition ts_of :: "csv_dict \<Rightarrow> int" where
  "ts_of row = (case row_timestamp row of Inr t \<Rightarrow> t | Inl _ \<Rightarrow> 0)"

definition parses :: "csv_dict \<Rightarrow> bool" where
  "parses row = (case row_timestamp row of Inr _ \<Rightarrow> True | Inl _ \<Rightarrow> False)"

text \<open>The rows that the iteration can still take from an entry: its lookahead row and the
  rows of the file after the position of its file object.  An entry is \<open>ready\<close> when
  \<open>connect\<close> has opened and primed it.\<close>

definition pending :: "disk \<Rightarrow> string \<Rightarrow> store \<Rightarrow> csv_dict list" where
  "pending d p self =
     (case tmp_read self p of
        None \<Rightarrow> []
      | Some e \<Rightarrow>
          (case next_line e of
             Row row \<Rightarrow>
               row # (case (reader e, fileobj e) of
                        (Some r, Some f) \<Rightarrow>
                          (case fieldnames r of
                             Some h \<Rightarrow> map (make_dict h)
                                        (filter (\<lambda>x. x \<noteq> []) (drop (pos f) (read_records d p)))
                           | None \<Rightarrow> [])
                      | _ \<Rightarrow> [])
           | _ \<Rightarrow> []))"

definition ready :: "string \<Rightarrow> store \<Rightarrow> bool" where
  "ready p self =
     (case tmp_read self p of
        None \<Rightarrow> False
      | Some e \<Rightarrow>
          next_line e \<noteq> EmptyList \<and>
          (case (reader e, fileobj e) of
             (Some r, Some f) \<Rightarrow> fieldnames r \<noteq> None \<and> \<not> closed f
           | _ \<Rightarrow> False))"

text \<open>The loop over one file at the watermark \<open>T\<close>, told from the rows to come: the
  rows that it takes, which are the leading rows that have a timestamp not beyond \<open>T\<close>; the
  rows that it leaves; and the exception that it raises, which is the one of the timestamp
  of the first row left, if that row has none.\<close>

definition rows_read :: "int \<Rightarrow> csv_dict list \<Rightarrow> csv_dict list" where
  "rows_read T rows = takeWhile (\<lambda>row. parses row \<and> ts_of row \<le> T) rows"

definition rows_left :: "int \<Rightarrow> csv_dict list \<Rightarrow> csv_dict list" where
  "rows_left T rows = dropWhile (\<lambda>row. parses row \<and> ts_of row \<le> T) rows"

definition loop_error :: "int \<Rightarrow> csv_dict list \<Rightarrow> exc option" where
  "loop_error T rows =
     (case rows_left T rows of
        [] \<Rightarrow> None
      | row # _ \<Rightarrow> (case row_timestamp row of Inl x \<Rightarrow> Some x | Inr _ \<Rightarrow> None))"

text \<open>Merging the decoded rows of the file \<open>p\<close> into the accumulator, in order.\<close>

definition merge_rows :: "report_model \<Rightarrow> string \<Rightarrow> csv_dict list \<Rightarrow> pydict \<Rightarrow> pydict" where
  "merge_rows rm p rows json =
     fold (\<lambda>row j. dict_merge j (from_csvdb rm (basename p) row)) rows json"

text \<open>The saved timestamp is the one given, or it has been taken, beyond the watermark
  \<open>T\<close>, from the lookahead row of the first registered file.\<close>

definition watermark_from_primary :: "int \<Rightarrow> int \<Rightarrow> store \<Rightarrow> bool" where
  "watermark_from_primary T s0 self =
     (saved_timestamp self = s0 \<or>
      (T < saved_timestamp self \<and>
       (case filenames self of
          [] \<Rightarrow> False
        | p0 # _ \<Rightarrow>
            (case tmp_read self p0 of
               None \<Rightarrow> False
             | Some e \<Rightarrow> line_timestamp (next_line e) = Inr (saved_timestamp self)))))"

text \<open>A file that \<open>connect\<close> opens and primes: it can be read, its header holds the common
  keys and it has a row.\<close>

definition good_file :: "disk \<Rightarrow> string \<Rightarrow> bool" where
  "good_file d p =
     (case d p of
        None \<Rightarrow> False
      | Some f \<Rightarrow>
          readable f \<and>
          (case text_mode (records f) of
             [] \<Rightarrow> False
           | h # rs \<Rightarrow> set KEYS_COMMON \<subseteq> set h \<and> filter (\<lambda>r. r \<noteq> []) rs \<noteq> []))"

text \<open>The store after line 220: the entry of \<open>p\<close> holds a file object just opened and a
  reader that has read nothing.\<close>

definition opened :: "string \<Rightarrow> entry \<Rightarrow> store \<Rightarrow> store" where
  "opened p e self =
     self\<lparr>tmp_read := (tmp_read self)(p \<mapsto>
       e\<lparr>reader := Some \<lparr>fieldnames = None\<rparr>, fileobj := Some \<lparr>closed = False, pos = 0\<rparr>\<rparr>)\<rparr>"

text \<open>The record merged at the timestamp \<open>T\<close> from the rows that \<open>view\<close> gives for each of
  the files: the deep union, file after file and row after row, of the decoded rows whose
  timestamp is \<open>T\<close>.\<close>

definition merged_at ::
  "report_model \<Rightarrow> string list \<Rightarrow> (string \<Rightarrow> csv_dict list) \<Rightarrow> int \<Rightarrow> pydict" where
  "merged_at rm ps view T =
     fold (\<lambda>q j. merge_rows rm q (filter (\<lambda>row. ts_of row = T) (view q)) j) ps []"

text \<open>The state of a connected store in the course of an iteration over files that are
  sorted by timestamp: every registered entry is ready, its rows to come have a timestamp
  and are sorted; the rows to come from the first file decode to non-empty fragments; the
  saved timestamp is the timestamp of the lookahead row of the first file, or the first file
  is exhausted and every row to come is beyond the saved timestamp.\<close>

definition merge_inv :: "report_model \<Rightarrow> disk \<Rightarrow> store \<Rightarrow> bool" where
  "merge_inv rm d self =
     (distinct (filenames self) \<and>
      (\<forall>p \<in> set (filenames self).
         ready p self \<and> (\<forall>row \<in> set (pending d p self). parses row) \<and>
         sorted (map ts_of (pending d p self))) \<and>
      (case filenames self of
         [] \<Rightarrow> True
       | p0 # _ \<Rightarrow>
           (\<forall>row \<in> set (pending d p0 self). from_csvdb rm (basename p0) row \<noteq> []) \<and>
           (case pending d p0 self of
              [] \<Rightarrow> (\<forall>p \<in> set (filenames self). \<forall>row \<in> set (pending d p self).
                       saved_timestamp self < ts_of row)
            | row # _ \<Rightarrow> saved_timestamp self = ts_of row)))"

text \<open>The sequence of merged records in the words of the specification: one record for
  each distinct timestamp of the first registered file, in ascending order, each the deep
  union of the rows of all the registered files that carry the timestamp.\<close>

definition merged_stream :: "report_model \<Rightarrow> disk \<Rightarrow> string list \<Rightarrow> (int \<times> pydict) list" where
  "merged_stream rm d ps =
     (case ps of
        [] \<Rightarrow> []
      | p0 # _ \<Rightarrow>
          map (\<lambda>T. (T, merged_at rm ps (file_rows d) T))
            (sorted_list_of_set (ts_of ` set (file_rows d p0))))"

subsection \<open>Example inputs\<close>

text \<open>A small report model, used where a property is evaluated on a concrete input: every
  nested dictionary of a report is a group, the string items of the report are the fields
  common to the groups; a row is decoded into its common fields and a dictionary of the
  other fields under the base name of its file.\<close>

fun scalars :: "pydict \<Rightarrow> (string \<times> string) list" where
  "scalars [] = []"
| "scalars ((k, PStr s) # r) = (k, s) # scalars r"
| "scalars (_ # r) = scalars r"

fun texts :: "csv_dict \<Rightarrow> pydict" where
  "texts [] = []"
| "texts ((Some k, Text s) # row) = (k, PStr s) # texts row"
| "texts (_ # row) = texts row"

definition example_to_csvdb :: "pydict \<Rightarrow> (string \<times> (string \<times> string) list) list" where
  "example_to_csvdb r =
     concat (map (\<lambda>(g, v). case v of PDict fs \<Rightarrow> [(g, scalars r @ scalars fs)] | _ \<Rightarrow> []) r)"

definition example_from_csvdb :: "string \<Rightarrow> csv_dict \<Rightarrow> pydict" where
  "example_from_csvdb base row =
     filter (\<lambda>(k, _). k \<in> set KEYS_COMMON) (texts row) @
     [(base, PDict (filter (\<lambda>(k, _). k \<notin> set KEYS_COMMON) (texts row)))]"

definition example_rm :: report_model where
  "example_rm = \<lparr>to_csvdb = example_to_csvdb, from_csvdb = example_from_csvdb\<rparr>"

definition example_store :: store where
  "example_store = \<lparr>filenames = [], current_path = ''/tmp/csvdbtest/'', tmp_read = Map.empty,
     saved_timestamp = timestamp_to_datetime 0\<rparr>"

definition report_power :: pydict where
  "report_power = [(''timestamp'', PStr ''1''), (''sensor'', PStr ''s1''), (''target'', PStr ''t1''),
     (''pkg'', PDict [(''power'', PStr ''42'')])]"

definition report_power_freq :: pydict where
  "report_power_freq = [(''timestamp'', PStr ''2''), (''sensor'', PStr ''s1''), (''target'', PStr ''t1''),
     (''pkg'', PDict [(''power'', PStr ''43''), (''freq'', PStr ''2400'')])]"

definition report_two_groups :: pydict where
  "report_two_groups = [(''timestamp'', PStr ''2''), (''sensor'', PStr ''s1''), (''target'', PStr ''t1''),
     (''core'', PDict [(''cycles'', PStr ''7'')]),
     (''pkg'', PDict [(''power'', PStr ''43''), (''freq'', PStr ''2400'')])]"

definition pkg_path :: string where
  "pkg_path = ''/tmp/csvdbtest/s1-t1/pkg.csv''"

definition core_path :: string where
  "core_path = ''/tmp/csvdbtest/s1-t1/core.csv''"

definition disk_pkg_power :: disk where
  "disk_pkg_power = [pkg_path \<mapsto> \<lparr>readable = True, records =
     [[''timestamp'', ''sensor'', ''target'', ''socket'', ''cpu'', ''power''],
      [''1'', ''s1'', ''t1'', [], [], ''42'']]\<rparr>]"

definition disk_pkg_empty :: disk where
  "disk_pkg_empty = [pkg_path \<mapsto> \<lparr>readable = True, records = []\<rparr>]"

text \<open>A disk on which the file of the group \<open>core\<close> holds the field \<open>instructions\<close>, and
  a report that expands to the group \<open>pkg\<close> with the field \<open>power\<close>, then to the group
  \<open>core\<close> with the field \<open>cycles\<close>.\<close>

definition disk_core_instructions :: disk where
  "disk_core_instructions = [core_path \<mapsto> \<lparr>readable = True, records =
     [[''timestamp'', ''sensor'', ''target'', ''socket'', ''cpu'', ''instructions''],
      [''0'', ''s1'', ''t1'', [], [], ''9'']]\<rparr>]"

definition report_pkg_core :: pydict where
  "report_pkg_core = [(''timestamp'', PStr ''2''), (''sensor'', PStr ''s1''), (''target'', PStr ''t1''),
     (''pkg'', PDict [(''power'', PStr ''43'')]),
     (''core'', PDict [(''cycles'', PStr ''7'')])]"

text \<open>A report whose group \<open>pkg\<close> has a field name that holds a carriage return.\<close>

definition report_cr :: pydict where
  "report_cr = [(''timestamp'', PStr ''1''), (''sensor'', PStr ''s1''), (''target'', PStr ''t1''),
     (''pkg'', PDict [([CHR ''p'', CHR 0x0D, CHR ''w''], PStr ''42'')])]"


text \<open>The scenario of the specification: the file \<open>A.csv\<close> has rows at the timestamps 1 and
  2, the file \<open>B.csv\<close> at 1 and 3, and \<open>A.csv\<close> is registered first.\<close>

definition a_path :: string where
  "a_path = ''/tmp/csvdbtest/A.csv''"

definition b_path :: string where
  "b_path = ''/tmp/csvdbtest/B.csv''"

definition disk_ab :: disk where
  "disk_ab = [a_path \<mapsto> \<lparr>readable = True, records =
       [[''timestamp'', ''sensor'', ''target'', ''socket'', ''cpu'', ''power''],
        [''1'', ''s1'', ''t1'', ''0'', ''0'', ''40''],
        [''2'', ''s1'', ''t1'', ''0'', ''0'', ''41'']]\<rparr>,
     b_path \<mapsto> \<lparr>readable = True, records =
       [[''timestamp'', ''sensor'', ''target'', ''socket'', ''cpu'', ''freq''],
        [''1'', ''s1'', ''t1'', ''0'', ''0'', ''2400''],
        [''3'', ''s1'', ''t1'', ''0'', ''0'', ''2600'']]\<rparr>]"

definition store_ab :: store where
  "store_ab = snd (add_files [''A.csv'', ''B.csv''] example_store)"

text \<open>A second file that starts behind the first row of the first file.\<close>

definition disk_behind :: disk where
  "disk_behind = [a_path \<mapsto> \<lparr>readable = True, records =
       [[''timestamp'', ''sensor'', ''target'', ''socket'', ''cpu'', ''power''],
        [''2'', ''s1'', ''t1'', ''0'', ''0'', ''41'']]\<rparr>,
     b_path \<mapsto> \<lparr>readable = True, records =
       [[''timestamp'', ''sensor'', ''target'', ''socket'', ''cpu'', ''freq''],
        [''1'', ''s1'', ''t1'', ''0'', ''0'', ''2400''],
        [''2'', ''s1'', ''t1'', ''0'', ''0'', ''2500'']]\<rparr>]"

definition connected_ab :: store where
  "connected_ab = snd (connect disk_ab store_ab)"

definition connected_behind :: store where
  "connected_behind = snd (connect disk_behind store_ab)"

text \<open>Disks on which \<open>connect\<close> fails: the first file is empty; the second file is missing;
  the second file cannot be read.\<close>

definition disk_a_empty :: disk where
  "disk_a_empty = disk_ab(a_path \<mapsto> \<lparr>readable = True, records = []\<rparr>)"

definition disk_b_missing :: disk where
  "disk_b_missing = disk_ab(b_path := None)"

definition disk_b_denied :: disk where
  "disk_b_denied = disk_ab(b_path \<mapsto> \<lparr>readable = False, records = []\<rparr>)"

text \<open>A report model whose decoder returns the empty dictionary for every row.\<close>

definition silent_rm :: report_model where
  "silent_rm = \<lparr>to_csvdb = example_to_csvdb, from_csvdb = (\<lambda>base row. [])\<rparr>"

section \<open>Properties of the writer\<close>

subsection \<open>Reading back what was written\<close>

lemma universal_newlines_cr_free: "cr_free s \<Longrightarrow> universal_newlines s = s"
  unfolding cr_free_def by (induction s rule: universal_newlines.induct) auto

lemma universal_newlines_no_cr: "cr_free (universal_newlines s)"
  unfolding cr_free_def by (induction s rule: universal_newlines.induct) auto

lemma universal_newlines_idem:
  "map universal_newlines (map universal_newlines h) = map universal_newlines h"
  by (simp add: universal_newlines_cr_free universal_newlines_no_cr)

lemma text_mode_Nil: "text_mode [] = []"
  by (simp add: text_mode_def)

lemma text_mode_Cons: "text_mode (h # rest) = map universal_newlines h # text_mode rest"
  by (simp add: text_mode_def)

lemma text_mode_append: "text_mode (xs @ ys) = text_mode xs @ text_mode ys"
  by (simp add: text_mode_def)

subsection \<open>One group\<close>

lemma keys_in_header: "k \<in> set (map fst values) \<Longrightarrow> k \<in> set (header_of values)"
  by (auto simp: header_of_def)

lemma header_of_nonempty: "header_of values \<noteq> []"
  by (simp add: header_of_def KEYS_COMMON_def)

lemma header_of_cr_free:
  assumes "\<forall>k \<in> fst ` set values. cr_free k"
  shows "map universal_newlines (header_of values) = header_of values"
proof -
  have "cr_free k" if "k \<in> set (header_of values)" for k
  proof (cases "k \<in> set KEYS_COMMON")
    case True
    then show ?thesis by (auto simp: KEYS_COMMON_def cr_free_def)
  next
    case False
    with that have "k \<in> fst ` set values" by (auto simp: header_of_def)
    with assms show ?thesis by blast
  qed
  then show ?thesis by (intro map_idI) (simp add: universal_newlines_cr_free)
qed

lemma dict_to_list_header: "dict_to_list (header_of values) values = Inr (row_of values)"
  using keys_in_header[of _ "values"] by (auto simp: dict_to_list_def row_of_def)

lemma save_file_new:
  "d p = None \<Longrightarrow>
   save_file p values d =
     (None, d(p \<mapsto> \<lparr>readable = True, records = [header_of values, row_of values]\<rparr>))"
  by (simp add: save_file_def open_read_def write_row_def dict_to_list_header
      append_records_def Let_def)

lemma save_file_denied:
  "d p = Some f \<Longrightarrow> \<not> readable f \<Longrightarrow> save_file p values d = (Some PermissionError, d)"
  by (simp add: save_file_def open_read_def)

lemma save_file_empty:
  "d p = Some f \<Longrightarrow> readable f \<Longrightarrow> records f = [] \<Longrightarrow>
   save_file p values d = (Some (HeaderAreNotTheSameError p), d)"
  by (simp add: save_file_def open_read_def fieldnames_of_def text_mode_Nil)

lemma save_file_existing:
  "d p = Some f \<Longrightarrow> readable f \<Longrightarrow> records f = h # rest \<Longrightarrow>
   save_file p values d =
     (if map universal_newlines h = header_of values
      then (None, d(p \<mapsto> f\<lparr>records := records f @ [row_of values]\<rparr>))
      else (Some (HeaderAreNotTheSameError p), d))"
  using header_of_nonempty[of "values"]
  by (auto simp: save_file_def open_read_def fieldnames_of_def write_row_def dict_to_list_header
      append_records_def Let_def text_mode_Cons)

lemma save_file_cases:
  obtains (new) "d p = None"
  | (denied) f where "d p = Some f" "\<not> readable f"
  | (empty) f where "d p = Some f" "readable f" "records f = []"
  | (rows) f h rest where "d p = Some f" "readable f" "records f = h # rest"
  by (cases "d p"; cases "records (the (d p))") auto

lemma save_file_frame: "q \<noteq> p \<Longrightarrow> snd (save_file p values d) q = d q"
  by (cases d p rule: save_file_cases)
     (simp_all add: save_file_new save_file_denied save_file_empty save_file_existing)

lemma save_file_ok_header:
  assumes "save_file p values d = (None, d')"
  shows "has_header d' p (map universal_newlines (header_of values))"
proof (cases d p rule: save_file_cases)
  case new
  with assms show ?thesis
    by (auto simp: save_file_new has_header_def fieldnames_of_def text_mode_Cons)
next
  case (denied f)
  with assms show ?thesis by (simp add: save_file_denied)
next
  case (empty f)
  with assms show ?thesis by (simp add: save_file_empty)
next
  case (rows f h rest)
  with assms have eq: "map universal_newlines h = header_of values"
    and d': "d' = d(p \<mapsto> f\<lparr>records := records f @ [row_of values]\<rparr>)"
    by (auto simp: save_file_existing split: if_splits)
  have "map universal_newlines (header_of values) = map universal_newlines h"
    using universal_newlines_idem[of h] eq by simp
  with rows d' show ?thesis
    by (simp add: has_header_def fieldnames_of_def text_mode_Cons)
qed

lemma save_file_has_header:
  "has_header d p h \<Longrightarrow>
   save_file p values d =
     (if h = header_of values
      then (None, snd (save_file p values d))
      else (Some (HeaderAreNotTheSameError p), d))"
  by (cases d p rule: save_file_cases)
     (auto simp: save_file_existing has_header_def fieldnames_of_def text_mode_Nil text_mode_Cons)

lemma save_file_keeps_header:
  "has_header d q h \<Longrightarrow> has_header (snd (save_file p values d)) q h"
proof (cases "q = p")
  case False
  then show "has_header d q h \<Longrightarrow> ?thesis"
    using save_file_frame[of q p "values" d] by (simp add: has_header_def)
next
  case True
  then show "has_header d q h \<Longrightarrow> ?thesis"
    by (cases d p rule: save_file_cases)
       (auto simp: save_file_existing has_header_def fieldnames_of_def text_mode_Nil text_mode_Cons)
qed

lemma save_file_mismatch:
  "save_file p' values d = (Some (HeaderAreNotTheSameError p), d1) \<Longrightarrow> p = p' \<and> d1 = d"
  by (cases d p' rule: save_file_cases)
     (auto simp: save_file_new save_file_denied save_file_empty save_file_existing split: if_splits)

subsection \<open>The groups of one record\<close>

lemma group_path_inj: "group_path rp g = group_path rp g' \<longleftrightarrow> g = g'"
  by (simp add: group_path_def)

lemma save_groups_append:
  "save_groups rp (xs @ ys) d =
     (case save_groups rp xs d of
        (Some e, d') \<Rightarrow> (Some e, d')
      | (None, d') \<Rightarrow> save_groups rp ys d')"
  by (induction xs arbitrary: d) (auto split: prod.splits option.splits)

lemma save_groups_keeps_header:
  "has_header d q h \<Longrightarrow> has_header (snd (save_groups rp data d)) q h"
proof (induction data arbitrary: d)
  case Nil
  then show ?case by simp
next
  case (Cons gv data)
  obtain g v where gv: "gv = (g, v)" by (cases gv)
  obtain r d' where sf: "save_file (group_path rp g) v d = (r, d')"
    by (cases "save_file (group_path rp g) v d")
  have "has_header d' q h"
    using save_file_keeps_header[OF Cons.prems, of "group_path rp g" v] sf by simp
  then show ?case
    using Cons.IH[of d'] sf gv by (cases r) simp_all
qed

lemma save_groups_ok_headers:
  "save_groups rp data d = (None, d') \<Longrightarrow> (g, v) \<in> set data \<Longrightarrow> distinct (map fst data) \<Longrightarrow>
   has_header d' (group_path rp g) (map universal_newlines (header_of v))"
proof (induction data arbitrary: d)
  case Nil
  then show ?case by simp
next
  case (Cons gv data)
  obtain g0 v0 where gv: "gv = (g0, v0)" by (cases gv)
  from Cons.prems(1) gv obtain d1 where
    sf: "save_file (group_path rp g0) v0 d = (None, d1)"
    and rest: "save_groups rp data d1 = (None, d')"
    by (auto split: prod.splits option.splits)
  show ?case
  proof (cases "(g, v) = (g0, v0)")
    case True
    have "has_header d1 (group_path rp g) (map universal_newlines (header_of v))"
      using save_file_ok_header[OF sf] True by simp
    then show ?thesis
      using save_groups_keeps_header[of d1 _ _ rp data] rest by (metis snd_conv)
  next
    case False
    with Cons.prems gv have "(g, v) \<in> set data" "distinct (map fst data)" by auto
    then show ?thesis using Cons.IH[OF rest] by simp
  qed
qed

lemma header_of_eval:
  "header_of values =
     KEYS_COMMON @ sort (remdups (filter (\<lambda>k. k \<notin> set KEYS_COMMON) (map fst values)))"
proof -
  have "set (map fst values) - set KEYS_COMMON = set (filter (\<lambda>k. k \<notin> set KEYS_COMMON) (map fst values))"
    by auto
  then show ?thesis
    unfolding header_of_def by (simp only: sorted_list_of_set_sort_remdups)
qed

lemma save_groups_mismatch:
  "save_groups rp data d = (Some (HeaderAreNotTheSameError p), d') \<Longrightarrow>
   \<exists>pre g v post. data = pre @ (g, v) # post \<and> p = group_path rp g \<and>
     save_groups rp pre d = (None, d') \<and>
     save_file p v d' = (Some (HeaderAreNotTheSameError p), d')"
proof (induction data arbitrary: d)
  case Nil
  then show ?case by simp
next
  case (Cons gv data)
  obtain g0 v0 where gv: "gv = (g0, v0)" by (cases gv)
  obtain r1 d1 where sf: "save_file (group_path rp g0) v0 d = (r1, d1)"
    by (cases "save_file (group_path rp g0) v0 d")
  show ?case
  proof (cases r1)
    case None
    with Cons.prems gv sf have "save_groups rp data d1 = (Some (HeaderAreNotTheSameError p), d')"
      by simp
    from Cons.IH[OF this] obtain pre g v post where
      *: "data = pre @ (g, v) # post" "p = group_path rp g" "save_groups rp pre d1 = (None, d')"
         "save_file p v d' = (Some (HeaderAreNotTheSameError p), d')"
      by blast
    have "save_groups rp ((g0, v0) # pre) d = (None, d')"
      using sf None *(3) by simp
    with * gv show ?thesis
      by (intro exI[of _ "(g0, v0) # pre"] exI[of _ g] exI[of _ v] exI[of _ post]) simp
  next
    case (Some e)
    with Cons.prems gv sf have e: "e = HeaderAreNotTheSameError p" "d1 = d'" by simp_all
    with sf Some have "p = group_path rp g0 \<and> d' = d"
      using save_file_mismatch[of "group_path rp g0" v0 d p d'] by simp
    with sf Some e gv show ?thesis
      by (intro exI[of _ "[]"] exI[of _ g0] exI[of _ v0] exI[of _ data]) simp
  qed
qed

lemma save_groups_frame:
  "q \<notin> group_path rp ` fst ` set data \<Longrightarrow> snd (save_groups rp data d) q = d q"
proof (induction data arbitrary: d)
  case Nil
  then show ?case by simp
next
  case (Cons gv data)
  obtain g0 v0 where gv: "gv = (g0, v0)" by (cases gv)
  obtain r1 d1 where sf: "save_file (group_path rp g0) v0 d = (r1, d1)"
    by (cases "save_file (group_path rp g0) v0 d")
  from Cons.prems gv have ne: "q \<noteq> group_path rp g0" and nin: "q \<notin> group_path rp ` fst ` set data"
    by auto
  have "d1 q = d q" using save_file_frame[OF ne, of v0 d] sf by simp
  then show ?case using Cons.IH[OF nin, of d1] sf gv by (cases r1) simp_all
qed

text \<open>A group that comes after the groups \<open>pre\<close> in a record of distinct group names has
  another file than each of them; and the groups after it do not raise for its file.\<close>

lemma group_path_not_in:
  "g \<notin> fst ` set data \<Longrightarrow> group_path rp g \<notin> group_path rp ` fst ` set data"
  by (force simp: group_path_inj)

lemma save_groups_other_file:
  assumes "g \<notin> fst ` set data"
  shows "fst (save_groups rp data d) \<noteq> Some (HeaderAreNotTheSameError (group_path rp g))"
proof
  assume a: "fst (save_groups rp data d) = Some (HeaderAreNotTheSameError (group_path rp g))"
  obtain d' where "save_groups rp data d = (Some (HeaderAreNotTheSameError (group_path rp g)), d')"
    using a by (cases "save_groups rp data d") simp
  from save_groups_mismatch[OF this] obtain pre g' v post where
    "data = pre @ (g', v) # post" "group_path rp g = group_path rp g'"
    by blast
  with assms show False by (auto simp: group_path_inj)
qed

subsection \<open>\<open>save\<close>\<close>

lemma str_item_Inl: "str_item r k = Inl e \<Longrightarrow> e = KeyError \<or> e = TypeError"
  by (auto simp: str_item_def split: option.splits pyval.splits)

lemma save_unfold:
  "str_item r ''sensor'' = Inr sensor \<Longrightarrow> str_item r ''target'' = Inr target \<Longrightarrow>
   save rm r (s, d) =
     (fst (save_groups (rep_path_of s sensor target) (to_csvdb rm r) d), s,
      snd (save_groups (rep_path_of s sensor target) (to_csvdb rm r) d))"
  by (simp add: save_def Let_def split: prod.splits)

text \<open>
  C7.  The header computed for a field map is the common fields \<open>timestamp, sensor, target,
  socket, cpu\<close> in this order, followed by the keys of the field map that are not common
  fields, without repetition and in ascending lexicographic order; it depends on the set
  of keys only, not on the order in which the fields were produced.
\<close>

theorem header_of_format:
  "\<exists>ks. header_of values = [''timestamp'', ''sensor'', ''target'', ''socket'', ''cpu''] @ ks \<and>
        sorted ks \<and> distinct ks \<and>
        set ks = fst ` set values - {''timestamp'', ''sensor'', ''target'', ''socket'', ''cpu''} \<and>
        (\<forall>values'. fst ` set values' = fst ` set values \<longrightarrow> header_of values' = header_of values)"
proof -
  let ?ks = "sorted_list_of_set (set (map fst values) - set KEYS_COMMON)"
  have "header_of values = [''timestamp'', ''sensor'', ''target'', ''socket'', ''cpu''] @ ?ks"
    by (simp add: header_of_def KEYS_COMMON_def)
  moreover have "sorted ?ks" "distinct ?ks" by simp_all
  moreover have "set ?ks = fst ` set values - {''timestamp'', ''sensor'', ''target'', ''socket'', ''cpu''}"
    by (simp add: KEYS_COMMON_def)
  moreover have "\<forall>values'. fst ` set values' = fst ` set values \<longrightarrow> header_of values' = header_of values"
    by (simp add: header_of_def)
  ultimately show ?thesis by blast
qed

theorem header_of_format_witness:
  "fst ` set [(''freq'', ''2400''), (''cpu'', ''0''), (''power'', ''42'')] =
     fst ` set [(''power'', ''42''), (''freq'', ''2400''), (''cpu'', ''0'')] \<and>
   header_of [(''freq'', ''2400''), (''cpu'', ''0''), (''power'', ''42'')] =
     header_of [(''power'', ''42''), (''freq'', ''2400''), (''cpu'', ''0'')] \<and>
   header_of [(''power'', ''42''), (''freq'', ''2400''), (''cpu'', ''0'')] =
     [''timestamp'', ''sensor'', ''target'', ''socket'', ''cpu'', ''freq'', ''power'']"
proof -
  have h: "fst ` set [(''freq'', ''2400''), (''cpu'', ''0''), (''power'', ''42'')] =
     fst ` set [(''power'', ''42''), (''freq'', ''2400''), (''cpu'', ''0'')]"
    by auto
  from header_of_format[of "[(''power'', ''42''), (''freq'', ''2400''), (''cpu'', ''0'')]"]
  have "header_of [(''freq'', ''2400''), (''cpu'', ''0''), (''power'', ''42'')] =
     header_of [(''power'', ''42''), (''freq'', ''2400''), (''cpu'', ''0'')]"
    using h by blast
  moreover have "header_of [(''power'', ''42''), (''freq'', ''2400''), (''cpu'', ''0'')] =
     [''timestamp'', ''sensor'', ''target'', ''socket'', ''cpu'', ''freq'', ''power'']"
    by (simp add: header_of_eval KEYS_COMMON_def)
  ultimately show ?thesis using h by blast
qed

text \<open>The scenario of the specification: the group \<open>pkg\<close> of sensor \<open>s1\<close> and target
  \<open>t1\<close> is saved with the field \<open>power\<close>, then with \<open>power\<close> and \<open>freq\<close>.\<close>

lemma example_to_csvdb_power:
  "to_csvdb example_rm report_power =
     [(''pkg'', [(''timestamp'', ''1''), (''sensor'', ''s1''), (''target'', ''t1''), (''power'', ''42'')])]"
  by (simp add: example_rm_def example_to_csvdb_def report_power_def)

lemma example_to_csvdb_power_freq:
  "to_csvdb example_rm report_power_freq =
     [(''pkg'', [(''timestamp'', ''2''), (''sensor'', ''s1''), (''target'', ''t1''),
                 (''power'', ''43''), (''freq'', ''2400'')])]"
  by (simp add: example_rm_def example_to_csvdb_def report_power_freq_def)

lemma example_to_csvdb_two_groups:
  "to_csvdb example_rm report_two_groups =
     [(''core'', [(''timestamp'', ''2''), (''sensor'', ''s1''), (''target'', ''t1''), (''cycles'', ''7'')]),
      (''pkg'', [(''timestamp'', ''2''), (''sensor'', ''s1''), (''target'', ''t1''),
                 (''power'', ''43''), (''freq'', ''2400'')])]"
  by (simp add: example_rm_def example_to_csvdb_def report_two_groups_def)

lemma example_sensor_target:
  "str_item report_power ''sensor'' = Inr ''s1''" "str_item report_power ''target'' = Inr ''t1''"
  "str_item report_power_freq ''sensor'' = Inr ''s1''" "str_item report_power_freq ''target'' = Inr ''t1''"
  "str_item report_two_groups ''sensor'' = Inr ''s1''" "str_item report_two_groups ''target'' = Inr ''t1''"
  by (simp_all add: str_item_def report_power_def report_power_freq_def report_two_groups_def)

lemma example_rep_path: "rep_path_of example_store ''s1'' ''t1'' = ''/tmp/csvdbtest/s1-t1''"
  by (simp add: rep_path_of_def example_store_def)

lemma example_group_path:
  "group_path (rep_path_of example_store ''s1'' ''t1'') ''pkg'' = pkg_path"
  by (simp add: example_rep_path group_path_def pkg_path_def)

lemma example_save_power:
  "save example_rm report_power (example_store, Map.empty) = (None, example_store, disk_pkg_power)"
  by (simp add: save_unfold[OF example_sensor_target(1,2)] example_to_csvdb_power example_rep_path
      group_path_def save_file_new disk_pkg_power_def pkg_path_def
      header_of_eval KEYS_COMMON_def row_of_def)

text \<open>
  C5, as stated, fails: the group \<open>pkg\<close> is saved with the field \<open>power\<close>; a second
  record for the same sensor and target expands to the group \<open>pkg\<close>, with the identical
  computed header, and to the group \<open>core\<close>, whose file holds another header.  The second
  call appends the row to the file of \<open>pkg\<close> and then raises \<open>HeaderAreNotTheSameError\<close>.
\<close>

theorem save_identical_header_raises:
  "fst (save example_rm report_power (example_store, disk_core_instructions)) = None \<and>
   map_of (to_csvdb example_rm report_power) ''pkg'' \<noteq> None \<and>
   map_of (to_csvdb example_rm report_pkg_core) ''pkg'' \<noteq> None \<and>
   header_of (the (map_of (to_csvdb example_rm report_pkg_core) ''pkg'')) =
     header_of (the (map_of (to_csvdb example_rm report_power) ''pkg'')) \<and>
   fst (save example_rm report_pkg_core
          (example_store, snd (snd (save example_rm report_power (example_store, disk_core_instructions))))) =
     Some (HeaderAreNotTheSameError core_path) \<and>
   map_option records
     (snd (snd (save example_rm report_pkg_core
        (example_store, snd (snd (save example_rm report_power (example_store, disk_core_instructions))))))
      pkg_path) =
     Some [[''timestamp'', ''sensor'', ''target'', ''socket'', ''cpu'', ''power''],
           [''1'', ''s1'', ''t1'', [], [], ''42''],
           [''2'', ''s1'', ''t1'', [], [], ''43'']]"
  by code_simp

text \<open>
  C5, amended.  Two \<open>save\<close> calls are made for the same sensor and target; the first
  succeeded and wrote the group \<open>g\<close>, with field names that hold no carriage return.  Then
  the file of \<open>g\<close> holds the header computed by the first call.  If the second record
  expands to distinct groups among which is \<open>g\<close>, and the groups before \<open>g\<close> are written
  without error, the second call raises \<open>HeaderAreNotTheSameError\<close> for the file of \<open>g\<close> if
  and only if its computed header for \<open>g\<close> differs from the one of the first call; with the
  identical header and \<open>g\<close> as the last group, the call does not raise at all.
\<close>

theorem save_header_mismatch_iff:
  assumes "str_item r1 ''sensor'' = Inr sensor" and "str_item r1 ''target'' = Inr target"
    and "str_item r2 ''sensor'' = Inr sensor" and "str_item r2 ''target'' = Inr target"
    and "distinct (map fst (to_csvdb rm r1))" and "(g, v1) \<in> set (to_csvdb rm r1)"
    and "\<forall>k \<in> fst ` set v1. cr_free k"
    and "save rm r1 (s, d) = (None, s1, d1)"
    and "to_csvdb rm r2 = pre @ (g, v2) # post" and "distinct (map fst (to_csvdb rm r2))"
    and "fst (save_groups (rep_path_of s sensor target) pre d1) = None"
  shows "has_header d1 (group_path (rep_path_of s sensor target) g) (header_of v1) \<and>
         (fst (save rm r2 (s1, d1)) =
            Some (HeaderAreNotTheSameError (group_path (rep_path_of s sensor target) g))) =
           (header_of v2 \<noteq> header_of v1) \<and>
         (post = [] \<and> header_of v2 = header_of v1 \<longrightarrow> fst (save rm r2 (s1, d1)) = None)"
proof -
  let ?rp = "rep_path_of s sensor target"
  let ?p = "group_path ?rp g"
  from assms(1,2,8) have s1: "s1 = s" and sg: "save_groups ?rp (to_csvdb rm r1) d = (None, d1)"
    by (auto simp: save_def Let_def split: prod.splits)
  have hh: "has_header d1 ?p (header_of v1)"
    using save_groups_ok_headers[OF sg assms(6) assms(5)] header_of_cr_free[OF assms(7)] by simp
  obtain dm where pre: "save_groups ?rp pre d1 = (None, dm)"
    using assms(11) by (cases "save_groups ?rp pre d1") simp
  have hm: "has_header dm ?p (header_of v1)"
    using save_groups_keeps_header[OF hh, of ?rp pre] pre by simp
  have sv2: "fst (save rm r2 (s1, d1)) = fst (save_groups ?rp ((g, v2) # post) dm)"
    using assms(3,4,9) s1 pre by (simp add: save_unfold save_groups_append)
  have gpost: "g \<notin> fst ` set post"
    using assms(9,10) by auto
  show ?thesis
  proof (cases "header_of v2 = header_of v1")
    case True
    obtain dg where sf: "save_file ?p v2 dm = (None, dg)"
      using save_file_has_header[OF hm, of v2] True by (cases "save_file ?p v2 dm") auto
    have "fst (save rm r2 (s1, d1)) = fst (save_groups ?rp post dg)"
      using sv2 sf by simp
    moreover have "fst (save_groups ?rp post dg) \<noteq> Some (HeaderAreNotTheSameError ?p)"
      by (rule save_groups_other_file[OF gpost])
    ultimately show ?thesis using hh True by auto
  next
    case False
    have "save_file ?p v2 dm = (Some (HeaderAreNotTheSameError ?p), dm)"
      using save_file_has_header[OF hm, of v2] False by auto
    then have "fst (save rm r2 (s1, d1)) = Some (HeaderAreNotTheSameError ?p)"
      using sv2 by simp
    with hh False show ?thesis by simp
  qed
qed

theorem save_header_mismatch_iff_witness:
  "save example_rm report_power (example_store, Map.empty) = (None, example_store, disk_pkg_power) \<and>
   has_header disk_pkg_power pkg_path
     [''timestamp'', ''sensor'', ''target'', ''socket'', ''cpu'', ''power''] \<and>
   fst (save example_rm report_power_freq (example_store, disk_pkg_power)) =
     Some (HeaderAreNotTheSameError pkg_path) \<and>
   fst (save example_rm report_two_groups (example_store, disk_pkg_power)) =
     Some (HeaderAreNotTheSameError pkg_path) \<and>
   fst (save example_rm report_power (example_store, disk_pkg_power)) = None"
proof -
  let ?v1 = "[(''timestamp'', ''1''), (''sensor'', ''s1''), (''target'', ''t1''), (''power'', ''42'')]"
  let ?v2 = "[(''timestamp'', ''2''), (''sensor'', ''s1''), (''target'', ''t1''),
              (''power'', ''43''), (''freq'', ''2400'')]"
  let ?c = "[(''timestamp'', ''2''), (''sensor'', ''s1''), (''target'', ''t1''), (''cycles'', ''7'')]"
  note first = example_save_power
  note pth = example_group_path
  have h1: "header_of ?v1 = [''timestamp'', ''sensor'', ''target'', ''socket'', ''cpu'', ''power'']"
    by (simp add: header_of_eval KEYS_COMMON_def)
  have neq: "header_of ?v2 \<noteq> header_of ?v1"
    by (simp add: header_of_eval KEYS_COMMON_def)
  have cr: "\<forall>k \<in> fst ` set ?v1. cr_free k"
    by (simp add: cr_free_def)
  have d1: "distinct (map fst (to_csvdb example_rm report_power))"
    "(''pkg'', ?v1) \<in> set (to_csvdb example_rm report_power)"
    by (simp_all add: example_to_csvdb_power)
  have nil: "fst (save_groups (rep_path_of example_store ''s1'' ''t1'') [] disk_pkg_power) = None"
    by simp
  have core: "fst (save_groups (rep_path_of example_store ''s1'' ''t1'') [(''core'', ?c)] disk_pkg_power) = None"
    by (simp add: example_rep_path group_path_def save_file_new disk_pkg_power_def pkg_path_def)
  have a: "to_csvdb example_rm report_power_freq = [] @ (''pkg'', ?v2) # []"
    "distinct (map fst (to_csvdb example_rm report_power_freq))"
    by (simp_all add: example_to_csvdb_power_freq)
  have b: "to_csvdb example_rm report_two_groups = [(''core'', ?c)] @ (''pkg'', ?v2) # []"
    "distinct (map fst (to_csvdb example_rm report_two_groups))"
    by (simp_all add: example_to_csvdb_two_groups)
  have c: "to_csvdb example_rm report_power = [] @ (''pkg'', ?v1) # []"
    by (simp add: example_to_csvdb_power)
  from save_header_mismatch_iff[OF example_sensor_target(1,2) example_sensor_target(3,4)
      d1 cr first a nil]
  have hh: "has_header disk_pkg_power pkg_path (header_of ?v1)"
    and r1: "fst (save example_rm report_power_freq (example_store, disk_pkg_power)) =
       Some (HeaderAreNotTheSameError pkg_path)"
    using neq by (simp_all add: pth)
  from save_header_mismatch_iff[OF example_sensor_target(1,2) example_sensor_target(5,6)
      d1 cr first b core]
  have r2: "fst (save example_rm report_two_groups (example_store, disk_pkg_power)) =
       Some (HeaderAreNotTheSameError pkg_path)"
    using neq by (simp add: pth)
  from save_header_mismatch_iff[OF example_sensor_target(1,2) example_sensor_target(1,2)
      d1 cr first c d1(1) nil]
  have r3: "fst (save example_rm report_power (example_store, disk_pkg_power)) = None"
    by simp
  from first hh r1 r2 r3 show ?thesis by (simp add: h1)
qed

text \<open>The hypothesis on carriage returns is needed: a field name that holds one is written
  as it is and read back with a line feed in its place, so that the second of two
  \<open>save\<close> calls with the identical record meets another header than the one it
  computes.\<close>

lemma save_twice_carriage_return:
  "fst (save example_rm report_cr (example_store, Map.empty)) = None \<and>
   fst (save example_rm report_cr
          (example_store, snd (snd (save example_rm report_cr (example_store, Map.empty))))) =
     Some (HeaderAreNotTheSameError pkg_path)"
  by code_simp

text \<open>
  C2, as stated, fails: a report that expands to the groups \<open>core\<close> and \<open>pkg\<close> is
  saved where the file of \<open>pkg\<close> holds another header.  The call raises
  \<open>HeaderAreNotTheSameError\<close> after the file of \<open>core\<close> has been written.
\<close>

theorem save_mismatch_partial_write:
  "fst (save example_rm report_two_groups (example_store, disk_pkg_power)) =
     Some (HeaderAreNotTheSameError pkg_path) \<and>
   snd (snd (save example_rm report_two_groups (example_store, disk_pkg_power))) core_path \<noteq>
     disk_pkg_power core_path"
  by code_simp

text \<open>
  C2, amended.  The output of the codec is a dictionary, so that its group names are
  distinct.  When \<open>save\<close> raises \<open>HeaderAreNotTheSameError\<close>, it does so at the first group
  whose file holds another header than the computed one, and the file of that group is
  exactly as before the call.  The disk is the one left by writing the groups that come
  before the failing group in the output of the codec: every file that is not the file of
  one of these groups is exactly as before the call, and when the failing group is the
  first one (in particular when the report expands to a single group) the whole disk is
  exactly as before the call.
\<close>

theorem save_mismatch_disk:
  assumes "save rm r (s, d) = (Some (HeaderAreNotTheSameError p), s', d')"
    and "distinct (map fst (to_csvdb rm r))"
  shows "d' p = d p \<and>
         (\<exists>sensor target pre g v post.
           str_item r ''sensor'' = Inr sensor \<and> str_item r ''target'' = Inr target \<and>
           to_csvdb rm r = pre @ (g, v) # post \<and>
           p = group_path (rep_path_of s sensor target) g \<and>
           save_groups (rep_path_of s sensor target) pre d = (None, d') \<and>
           \<not> has_header d' p (header_of v) \<and>
           (\<forall>q. q \<notin> group_path (rep_path_of s sensor target) ` fst ` set pre \<longrightarrow> d' q = d q) \<and>
           (pre = [] \<longrightarrow> d' = d))"
proof -
  from assms(1) obtain sensor target where
    st: "str_item r ''sensor'' = Inr sensor" "str_item r ''target'' = Inr target"
    by (auto simp: save_def Let_def split: sum.splits prod.splits dest: str_item_Inl)
  let ?rp = "rep_path_of s sensor target"
  from assms(1) have sg: "save_groups ?rp (to_csvdb rm r) d = (Some (HeaderAreNotTheSameError p), d')"
    by (simp add: save_unfold[OF st]) (metis prod.collapse)
  from save_groups_mismatch[OF sg] obtain pre g v post where
    *: "to_csvdb rm r = pre @ (g, v) # post" "p = group_path ?rp g"
       "save_groups ?rp pre d = (None, d')"
       "save_file p v d' = (Some (HeaderAreNotTheSameError p), d')"
    by blast
  have nh: "\<not> has_header d' p (header_of v)"
    using save_file_has_header[of d' p "header_of v" v] *(4) by auto
  have fr: "\<forall>q. q \<notin> group_path ?rp ` fst ` set pre \<longrightarrow> d' q = d q"
    using save_groups_frame[of _ ?rp pre d] *(3) by simp
  have "g \<notin> fst ` set pre" using assms(2) *(1) by auto
  then have "p \<notin> group_path ?rp ` fst ` set pre"
    unfolding *(2) by (rule group_path_not_in)
  with fr have same: "d' p = d p" by blast
  have "pre = [] \<longrightarrow> d' = d" using *(3) by auto
  with st * nh fr same show ?thesis by blast
qed

theorem save_mismatch_disk_witness:
  "distinct (map fst (to_csvdb example_rm report_two_groups)) \<and>
   fst (save example_rm report_two_groups (example_store, disk_pkg_power)) =
     Some (HeaderAreNotTheSameError pkg_path) \<and>
   snd (snd (save example_rm report_two_groups (example_store, disk_pkg_power))) pkg_path =
     disk_pkg_power pkg_path \<and>
   save example_rm report_power_freq (example_store, disk_pkg_power) =
     (Some (HeaderAreNotTheSameError pkg_path), example_store, disk_pkg_power)"
proof -
  have dt: "distinct (map fst (to_csvdb example_rm report_two_groups))"
    by (simp add: example_to_csvdb_two_groups)
  have df: "distinct (map fst (to_csvdb example_rm report_power_freq))"
    by (simp add: example_to_csvdb_power_freq)
  obtain r s' d' where sv: "save example_rm report_two_groups (example_store, disk_pkg_power) = (r, s', d')"
    by (cases "save example_rm report_two_groups (example_store, disk_pkg_power)")
  have "fst (save example_rm report_two_groups (example_store, disk_pkg_power)) =
     Some (HeaderAreNotTheSameError pkg_path)"
    by code_simp
  with sv have r: "r = Some (HeaderAreNotTheSameError pkg_path)" by simp
  from save_mismatch_disk[OF sv[unfolded r] dt] have two: "d' pkg_path = disk_pkg_power pkg_path"
    by blast
  obtain r1 s1 d1 where sv1: "save example_rm report_power_freq (example_store, disk_pkg_power) = (r1, s1, d1)"
    by (cases "save example_rm report_power_freq (example_store, disk_pkg_power)")
  have "fst (save example_rm report_power_freq (example_store, disk_pkg_power)) =
     Some (HeaderAreNotTheSameError pkg_path)"
    by code_simp
  with sv1 have r1: "r1 = Some (HeaderAreNotTheSameError pkg_path)" by simp
  have s1: "s1 = example_store"
    using sv1 by (simp add: save_unfold[OF example_sensor_target(3,4)])
  from save_mismatch_disk[OF sv1[unfolded r1] df] obtain pre g v post where
    "to_csvdb example_rm report_power_freq = pre @ (g, v) # post" "pre = [] \<longrightarrow> d1 = disk_pkg_power"
    by blast
  then have "d1 = disk_pkg_power"
    by (simp add: example_to_csvdb_power_freq Cons_eq_append_conv)
  with sv sv1 r r1 s1 two dt show ?thesis by simp
qed

text \<open>
  C4 fails on a file that exists and holds no record: the field names read from it are
  \<open>None\<close>, which differs from every computed header, so that \<open>save\<close> raises
  \<open>HeaderAreNotTheSameError\<close> and writes neither the header line nor the row.
\<close>

theorem save_existing_empty_file_raises:
  assumes "str_item r ''sensor'' = Inr sensor" and "str_item r ''target'' = Inr target"
    and "to_csvdb rm r = (g, v) # rest"
    and "d (group_path (rep_path_of s sensor target) g) = Some f"
    and "readable f" and "records f = []"
  shows "save rm r (s, d) =
           (Some (HeaderAreNotTheSameError (group_path (rep_path_of s sensor target) g)), s, d)"
  using assms by (simp add: save_unfold save_file_empty)

theorem save_existing_empty_file_raises_witness:
  "disk_pkg_empty pkg_path = Some \<lparr>readable = True, records = []\<rparr> \<and>
   save example_rm report_power (example_store, disk_pkg_empty) =
     (Some (HeaderAreNotTheSameError pkg_path), example_store, disk_pkg_empty)"
proof -
  have f: "disk_pkg_empty (group_path (rep_path_of example_store ''s1'' ''t1'') ''pkg'') =
             Some \<lparr>readable = True, records = []\<rparr>"
    by (simp add: disk_pkg_empty_def pkg_path_def example_rep_path group_path_def)
  have pth: "group_path (rep_path_of example_store ''s1'' ''t1'') ''pkg'' = pkg_path"
    by (simp add: example_rep_path group_path_def pkg_path_def)
  from save_existing_empty_file_raises[where d=disk_pkg_empty and s=example_store,
      OF example_sensor_target(1,2) example_to_csvdb_power f]
  show ?thesis using f by (simp add: pth)
qed

text \<open>
  C10.  Whether it succeeds or raises, \<open>save\<close> leaves the store object as it was: the
  list of registered files, every entry of \<open>tmp_read\<close> (reader, file position and
  lookahead row) and the saved timestamp.
\<close>

theorem save_keeps_store: "fst (snd (save rm r (s, d))) = s"
  by (simp add: save_def Let_def split: sum.splits prod.splits)

theorem save_keeps_store_witness:
  "fst (snd (save example_rm report_power (example_store, Map.empty))) = example_store \<and>
   fst (snd (save example_rm report_two_groups (example_store, disk_pkg_power))) = example_store"
  using save_keeps_store[of example_rm report_power example_store Map.empty]
    save_keeps_store[of example_rm report_two_groups example_store disk_pkg_power]
  by simp

subsection \<open>Repeated saves to one file\<close>

text \<open>For a file that exists with the header, and for a file that does not exist, a sequence
  of \<open>save\<close> calls with the identical computed header, free of carriage returns, appends
  one row per call, after the header written once.\<close>

lemma save_single_group:
  assumes "str_item r ''sensor'' = Inr sensor" "str_item r ''target'' = Inr target"
    and "to_csvdb rm r = [(g, v)]"
  shows "save rm r (s, d) =
           (fst (save_file (group_path (rep_path_of s sensor target) g) v d), s,
            snd (save_file (group_path (rep_path_of s sensor target) g) v d))"
  using assms by (simp add: save_unfold split: prod.splits option.splits)

lemma save_many_existing:
  assumes "\<forall>r \<in> set rs. str_item r ''sensor'' = Inr sensor \<and> str_item r ''target'' = Inr target \<and>
             (\<exists>v. to_csvdb rm r = [(g, v)] \<and> header_of v = h)"
    and "d (group_path (rep_path_of s sensor target) g) = Some f" and "readable f"
    and "records f = h0 # rest" and "map universal_newlines h0 = h"
  shows "\<exists>d' f'. save_many rm rs (s, d) = (None, s, d') \<and>
           d' (group_path (rep_path_of s sensor target) g) = Some f' \<and> readable f' \<and>
           records f' = records f @ map (\<lambda>r. row_of (snd (hd (to_csvdb rm r)))) rs"
  using assms
proof (induction rs arbitrary: d f rest)
  case Nil
  then show ?case by simp
next
  case (Cons r rs)
  let ?p = "group_path (rep_path_of s sensor target) g"
  from Cons.prems(1) obtain v where
    r: "str_item r ''sensor'' = Inr sensor" "str_item r ''target'' = Inr target"
       "to_csvdb rm r = [(g, v)]" "header_of v = h"
    by auto
  let ?f1 = "f\<lparr>records := records f @ [row_of v]\<rparr>"
  let ?d1 = "d(?p \<mapsto> ?f1)"
  have sv: "save rm r (s, d) = (None, s, ?d1)"
    using save_file_existing[where d=d and p="?p" and f=f, OF Cons.prems(2,3,4)] r(4) Cons.prems(5)
    by (simp add: save_single_group[OF r(1,2,3)])
  have pre: "\<forall>r \<in> set rs. str_item r ''sensor'' = Inr sensor \<and> str_item r ''target'' = Inr target \<and>
             (\<exists>v. to_csvdb rm r = [(g, v)] \<and> header_of v = h)"
    using Cons.prems(1) by simp
  have d1: "?d1 ?p = Some ?f1" "readable ?f1" "records ?f1 = h0 # (rest @ [row_of v])"
    using Cons.prems(3,4) by simp_all
  from Cons.IH[where d="?d1" and f="?f1", OF pre d1 Cons.prems(5)] obtain d' f' where
    "save_many rm rs (s, ?d1) = (None, s, d')" "d' ?p = Some f'" "readable f'"
    "records f' = records ?f1 @ map (\<lambda>r. row_of (snd (hd (to_csvdb rm r)))) rs"
    by blast
  with sv r(3) show ?case by simp
qed

lemma save_many_new_file:
  assumes "\<forall>r \<in> set rs. str_item r ''sensor'' = Inr sensor \<and> str_item r ''target'' = Inr target \<and>
             (\<exists>v. to_csvdb rm r = [(g, v)] \<and> header_of v = h)"
    and "d (group_path (rep_path_of s sensor target) g) = None" and "rs \<noteq> []"
    and "map universal_newlines h = h"
  shows "\<exists>d' f'. save_many rm rs (s, d) = (None, s, d') \<and>
           d' (group_path (rep_path_of s sensor target) g) = Some f' \<and>
           records f' = h # map (\<lambda>r. row_of (snd (hd (to_csvdb rm r)))) rs"
proof -
  let ?p = "group_path (rep_path_of s sensor target) g"
  from assms(3) obtain r rs' where rs: "rs = r # rs'" by (cases rs) auto
  from assms(1) rs obtain v where
    r: "str_item r ''sensor'' = Inr sensor" "str_item r ''target'' = Inr target"
       "to_csvdb rm r = [(g, v)]" "header_of v = h"
    by auto
  let ?f1 = "\<lparr>readable = True, records = [h, row_of v]\<rparr>"
  let ?d1 = "d(?p \<mapsto> ?f1)"
  have sv: "save rm r (s, d) = (None, s, ?d1)"
    using save_file_new[where d=d and p="?p", OF assms(2)] r(4)
    by (simp add: save_single_group[OF r(1,2,3)])
  have pre: "\<forall>r \<in> set rs'. str_item r ''sensor'' = Inr sensor \<and> str_item r ''target'' = Inr target \<and>
             (\<exists>v. to_csvdb rm r = [(g, v)] \<and> header_of v = h)"
    using assms(1) rs by simp
  have d1: "?d1 ?p = Some ?f1" "readable ?f1" "records ?f1 = h # [row_of v]"
    by simp_all
  from save_many_existing[where d="?d1" and f="?f1", OF pre d1 assms(4)] obtain d' f' where
    "save_many rm rs' (s, ?d1) = (None, s, d')" "d' ?p = Some f'"
    "records f' = records ?f1 @ map (\<lambda>r. row_of (snd (hd (to_csvdb rm r)))) rs'"
    by blast
  with sv r(3) rs show ?thesis by simp
qed

section \<open>Properties of the reader\<close>

subsection \<open>Reading the next row of a connected entry\<close>

lemma dropWhile_Nil_filter: "dropWhile P xs = [] \<Longrightarrow> filter (\<lambda>x. \<not> P x) xs = []"
  by (induction xs) (auto split: if_splits)

lemma dropWhile_Cons_filter:
  "dropWhile P xs = y # ys \<Longrightarrow> filter (\<lambda>x. \<not> P x) xs = y # filter (\<lambda>x. \<not> P x) ys"
  by (induction xs) (auto split: if_splits)

lemma dropWhile_Cons_drop:
  "dropWhile P (drop n xs) = y # ys \<Longrightarrow> drop (Suc (n + length (takeWhile P (drop n xs)))) xs = ys"
proof -
  assume a: "dropWhile P (drop n xs) = y # ys"
  have "drop (Suc (n + length (takeWhile P (drop n xs)))) xs
      = drop (Suc (length (takeWhile P (drop n xs)))) (drop n xs)"
    by (simp add: add.commute)
  also have "\<dots> = tl (drop (length (takeWhile P (drop n xs))) (drop n xs))"
    by (simp add: drop_Suc tl_drop)
  also have "\<dots> = tl (dropWhile P (drop n xs))"
    by (simp add: dropWhile_eq_drop)
  finally show ?thesis using a by simp
qed

lemma reader_next_eof:
  assumes "fieldnames r = Some h" "\<not> closed f"
    and "dropWhile (\<lambda>x. x = []) (drop (pos f) rows) = []"
  shows "reader_next rows (r, f) =
     (Inl StopIteration, r,
      f\<lparr>pos := pos f + length (takeWhile (\<lambda>x. x = []) (drop (pos f) rows))\<rparr>)"
  using assms by (simp add: reader_next_def Let_def del: dropWhile_eq_Nil_conv)

lemma reader_next_row:
  assumes "fieldnames r = Some h" "\<not> closed f"
    and "dropWhile (\<lambda>x. x = []) (drop (pos f) rows) = y # ys"
  shows "reader_next rows (r, f) =
     (Inr (make_dict h y), r,
      f\<lparr>pos := Suc (pos f + length (takeWhile (\<lambda>x. x = []) (drop (pos f) rows)))\<rparr>)"
  using assms by (simp add: reader_next_def Let_def)

lemma next_row_ready:
  assumes "ready p self" "tmp_read self p = Some e" "next_line e = Row row"
  shows "\<exists>nl self1. next_row d p self = (Inr nl, self1) \<and>
           ready p (set_next_line p nl self1) \<and>
           pending d p (set_next_line p nl self1) = tl (pending d p self)"
proof -
  from assms obtain r f h where
    e: "reader e = Some r" "fileobj e = Some f" "fieldnames r = Some h" "\<not> closed f"
    by (auto simp: ready_def split: option.splits)
  let ?rows = "read_records d p"
  let ?rest = "drop (pos f) ?rows"
  let ?k = "length (takeWhile (\<lambda>x. x = []) ?rest)"
  show ?thesis
  proof (cases "dropWhile (\<lambda>x. x = []) ?rest")
    case Nil
    then have flt: "filter (\<lambda>x. x \<noteq> []) ?rest = []"
      using dropWhile_Nil_filter[of "\<lambda>x. x = []" ?rest] by simp
    let ?s1 = "self\<lparr>tmp_read := (tmp_read self)(p \<mapsto>
                 e\<lparr>reader := Some r, fileobj := Some (f\<lparr>pos := pos f + ?k\<rparr>)\<rparr>)\<rparr>"
    have nr: "next_row d p self = (Inr NoneLine, ?s1)"
      using assms(2) e by (simp add: next_row_def reader_next_eof[OF e(3,4) Nil])
    have "ready p (set_next_line p NoneLine ?s1)"
      using e by (simp add: set_next_line_def ready_def)
    moreover have "pending d p (set_next_line p NoneLine ?s1) = tl (pending d p self)"
      using assms(2,3) e flt by (simp add: set_next_line_def pending_def)
    ultimately show ?thesis using nr by blast
  next
    case (Cons y ys)
    then have flt: "filter (\<lambda>x. x \<noteq> []) ?rest = y # filter (\<lambda>x. x \<noteq> []) ys"
      using dropWhile_Cons_filter[of "\<lambda>x. x = []" ?rest y ys] by simp
    have drp: "drop (Suc (pos f + ?k)) ?rows = ys"
      by (rule dropWhile_Cons_drop[OF Cons])
    let ?s1 = "self\<lparr>tmp_read := (tmp_read self)(p \<mapsto>
                 e\<lparr>reader := Some r, fileobj := Some (f\<lparr>pos := Suc (pos f + ?k)\<rparr>)\<rparr>)\<rparr>"
    have nr: "next_row d p self = (Inr (Row (make_dict h y)), ?s1)"
      using assms(2) e by (simp add: next_row_def reader_next_row[OF e(3,4) Cons])
    have "ready p (set_next_line p (Row (make_dict h y)) ?s1)"
      using e by (simp add: set_next_line_def ready_def)
    moreover have "pending d p (set_next_line p (Row (make_dict h y)) ?s1) = tl (pending d p self)"
      using assms(2,3) e flt drp by (simp add: set_next_line_def pending_def)
    ultimately show ?thesis using nr by blast
  qed
qed

lemma next_row_frame':
  "next_row d p self = (res, self') \<Longrightarrow>
     saved_timestamp self' = saved_timestamp self \<and> current_path self' = current_path self"
  by (auto simp: next_row_def Let_def split: option.splits prod.splits sum.splits if_splits)

lemma set_next_line_frame':
  "saved_timestamp (set_next_line p nl self) = saved_timestamp self \<and>
   current_path (set_next_line p nl self) = current_path self"
  by (auto simp: set_next_line_def split: option.splits)

lemma pending_Cons:
  "pending d p self = row # rest \<Longrightarrow> \<exists>e. tmp_read self p = Some e \<and> next_line e = Row row"
  by (auto simp: pending_def split: option.splits next_line.splits)

lemma pending_Nil:
  "ready p self \<Longrightarrow> pending d p self = [] \<Longrightarrow> \<exists>e. tmp_read self p = Some e \<and> next_line e = NoneLine"
  by (auto simp: pending_def ready_def split: option.splits next_line.splits)

lemma pending_cong:
  "tmp_read self' p = tmp_read self p \<Longrightarrow> pending d p self' = pending d p self"
  by (simp add: pending_def)

lemma ready_cong:
  "tmp_read self' p = tmp_read self p \<Longrightarrow> ready p self' = ready p self"
  by (simp add: ready_def)


subsection \<open>The loop over one file\<close>

lemma read_file_none:
  "tmp_read self p = Some e \<Longrightarrow> next_line e = NoneLine \<Longrightarrow>
   read_file rm d T p self json = (None, self, json)"
  by (simp add: read_file_unfold[of rm d T p self json])

lemma read_file_stop:
  "tmp_read self p = Some e \<Longrightarrow> next_line e = Row row \<Longrightarrow> row_timestamp row = Inr t \<Longrightarrow>
   T < t \<Longrightarrow> filenames self = p0 # ps \<Longrightarrow>
   read_file rm d T p self json =
     (None, if p = p0 then self\<lparr>saved_timestamp := t\<rparr> else self, json)"
  by (simp add: read_file_unfold[of rm d T p self json])

lemma read_file_step:
  "tmp_read self p = Some e \<Longrightarrow> next_line e = Row row \<Longrightarrow> row_timestamp row = Inr t \<Longrightarrow>
   \<not> T < t \<Longrightarrow> next_row d p self = (Inr nl, self1) \<Longrightarrow>
   read_file rm d T p self json =
     read_file rm d T p (set_next_line p nl self1)
       (if t = T then dict_merge json (from_csvdb rm (basename p) row) else json)"
  by (simp add: read_file_unfold[of rm d T p self json] Let_def)

lemma parses_ts: "parses row \<Longrightarrow> row_timestamp row = Inr (ts_of row)"
  by (simp add: parses_def ts_of_def split: sum.splits)

lemma read_file_ready:
  assumes "ready p self" "pending d p self = rows" "\<forall>row \<in> set rows. parses row"
    and "filenames self = p0 # ps"
  shows "\<exists>self'. read_file rm d T p self json =
           (None, self',
            merge_rows rm p (filter (\<lambda>row. ts_of row = T) (takeWhile (\<lambda>row. ts_of row \<le> T) rows)) json) \<and>
         ready p self' \<and>
         pending d p self' = dropWhile (\<lambda>row. ts_of row \<le> T) rows \<and>
         (\<forall>q. q \<noteq> p \<longrightarrow> tmp_read self' q = tmp_read self q) \<and>
         filenames self' = filenames self \<and>
         saved_timestamp self' =
           (if p = p0 \<and> dropWhile (\<lambda>row. ts_of row \<le> T) rows \<noteq> []
            then ts_of (hd (dropWhile (\<lambda>row. ts_of row \<le> T) rows))
            else saved_timestamp self)"
  using assms
proof (induction rows arbitrary: self json)
  case Nil
  from pending_Nil[OF Nil(1,2)] obtain e where "tmp_read self p = Some e" "next_line e = NoneLine"
    by blast
  then have "read_file rm d T p self json = (None, self, json)" by (rule read_file_none)
  with Nil show ?case by (simp add: merge_rows_def)
next
  case (Cons row rest)
  from pending_Cons[OF Cons.prems(2)] obtain e where
    e: "tmp_read self p = Some e" "next_line e = Row row" by blast
  from Cons.prems(3) have ts: "row_timestamp row = Inr (ts_of row)" by (simp add: parses_ts)
  show ?case
  proof (cases "T < ts_of row")
    case True
    let ?s' = "if p = p0 then self\<lparr>saved_timestamp := ts_of row\<rparr> else self"
    have rf: "read_file rm d T p self json = (None, ?s', json)"
      by (rule read_file_stop[OF e ts True Cons.prems(4)])
    have "ready p ?s'" using Cons.prems(1) by (auto simp: ready_def)
    moreover have "pending d p ?s' = row # rest" using Cons.prems(2) by (auto simp: pending_def)
    ultimately show ?thesis using rf True by (simp add: merge_rows_def)
  next
    case False
    from next_row_ready[OF Cons.prems(1) e, of d] obtain nl self1 where
      nr: "next_row d p self = (Inr nl, self1)"
      and rdy: "ready p (set_next_line p nl self1)"
      and pnd: "pending d p (set_next_line p nl self1) = rest"
      using Cons.prems(2) by auto
    let ?s1 = "set_next_line p nl self1"
    let ?j1 = "if ts_of row = T then dict_merge json (from_csvdb rm (basename p) row) else json"
    have step: "read_file rm d T p self json = read_file rm d T p ?s1 ?j1"
      by (rule read_file_step[OF e ts False nr])
    have fr: "filenames ?s1 = filenames self" "saved_timestamp ?s1 = saved_timestamp self"
      "\<forall>q. q \<noteq> p \<longrightarrow> tmp_read ?s1 q = tmp_read self q"
      using next_row_frame[OF nr] next_row_frame'[OF nr] set_next_line_frame[of p nl self1]
        set_next_line_frame'[of p nl self1] by auto
    have "filenames ?s1 = p0 # ps" using fr Cons.prems(4) by simp
    from Cons.IH[OF rdy pnd _ this, of ?j1] Cons.prems(3)
    obtain self' where
      *: "read_file rm d T p ?s1 ?j1 =
           (None, self',
            merge_rows rm p (filter (\<lambda>row. ts_of row = T) (takeWhile (\<lambda>row. ts_of row \<le> T) rest)) ?j1)"
         "ready p self'"
         "pending d p self' = dropWhile (\<lambda>row. ts_of row \<le> T) rest"
         "\<forall>q. q \<noteq> p \<longrightarrow> tmp_read self' q = tmp_read ?s1 q"
         "filenames self' = filenames ?s1"
         "saved_timestamp self' =
           (if p = p0 \<and> dropWhile (\<lambda>row. ts_of row \<le> T) rest \<noteq> []
            then ts_of (hd (dropWhile (\<lambda>row. ts_of row \<le> T) rest))
            else saved_timestamp ?s1)"
      by auto
    show ?thesis
      using step * fr False
      by (intro exI[of _ self']) (auto simp: merge_rows_def)
  qed
qed

text \<open>The loop over the file of a connected entry, for any rows to come.\<close>

lemma read_file_raise:
  "tmp_read self p = Some e \<Longrightarrow> next_line e = Row row \<Longrightarrow> row_timestamp row = Inl x \<Longrightarrow>
   read_file rm d T p self json = (Some x, self, json)"
  by (simp add: read_file_unfold[of rm d T p self json])

lemma rows_Nil: "rows_read T [] = []" "rows_left T [] = []" "loop_error T [] = None"
  by (simp_all add: rows_read_def rows_left_def loop_error_def)

lemma rows_stop:
  "\<not> (parses row \<and> ts_of row \<le> T) \<Longrightarrow> rows_read T (row # rest) = []"
  "\<not> (parses row \<and> ts_of row \<le> T) \<Longrightarrow> rows_left T (row # rest) = row # rest"
  "\<not> (parses row \<and> ts_of row \<le> T) \<Longrightarrow>
     loop_error T (row # rest) = (case row_timestamp row of Inl x \<Rightarrow> Some x | Inr _ \<Rightarrow> None)"
  by (auto simp: rows_read_def rows_left_def loop_error_def)

lemma rows_step:
  "parses row \<Longrightarrow> ts_of row \<le> T \<Longrightarrow> rows_read T (row # rest) = row # rows_read T rest"
  "parses row \<Longrightarrow> ts_of row \<le> T \<Longrightarrow> rows_left T (row # rest) = rows_left T rest"
  "parses row \<Longrightarrow> ts_of row \<le> T \<Longrightarrow> loop_error T (row # rest) = loop_error T rest"
  by (simp_all add: rows_read_def rows_left_def loop_error_def)

lemma loop_error_parses: "\<forall>r \<in> set rows. parses r \<Longrightarrow> loop_error T rows = None"
proof -
  assume a: "\<forall>r \<in> set rows. parses r"
  show ?thesis
  proof (cases "rows_left T rows")
    case Nil
    then show ?thesis by (simp add: loop_error_def)
  next
    case (Cons r rs)
    then have "r \<in> set rows"
      unfolding rows_left_def by (metis list.set_intros(1) set_dropWhileD)
    with a have "parses r" by blast
    then show ?thesis using Cons by (simp add: loop_error_def parses_def split: sum.splits)
  qed
qed

lemma read_file_loop:
  assumes "ready p self" "pending d p self = rows" "filenames self = p0 # ps"
  shows "\<exists>self'. read_file rm d T p self json =
           (loop_error T rows, self',
            merge_rows rm p (filter (\<lambda>row. ts_of row = T) (rows_read T rows)) json) \<and>
         ready p self' \<and>
         pending d p self' = rows_left T rows \<and>
         (\<forall>q. q \<noteq> p \<longrightarrow> tmp_read self' q = tmp_read self q) \<and>
         filenames self' = filenames self \<and>
         current_path self' = current_path self \<and>
         saved_timestamp self' =
           (case rows_left T rows of
              [] \<Rightarrow> saved_timestamp self
            | row # _ \<Rightarrow> if p = p0 \<and> parses row then ts_of row else saved_timestamp self)"
  using assms
proof (induction rows arbitrary: self json)
  case Nil
  from pending_Nil[OF Nil(1,2)] obtain e where "tmp_read self p = Some e" "next_line e = NoneLine"
    by blast
  then have "read_file rm d T p self json = (None, self, json)" by (rule read_file_none)
  with Nil show ?case by (simp add: merge_rows_def rows_Nil)
next
  case (Cons row rest)
  from pending_Cons[OF Cons.prems(2)] obtain e where
    e: "tmp_read self p = Some e" "next_line e = Row row" by blast
  show ?case
  proof (cases "row_timestamp row")
    case (Inl x)
    then have npr: "\<not> parses row" by (simp add: parses_def)
    then have np: "\<not> (parses row \<and> ts_of row \<le> T)" by simp
    have rf: "read_file rm d T p self json = (Some x, self, json)"
      by (rule read_file_raise[OF e Inl])
    show ?thesis
      using rf Cons.prems(1,2) Inl npr
      by (intro exI[of _ self]) (simp add: rows_stop[OF np] merge_rows_def)
  next
    case (Inr t)
    then have ps: "parses row" and ts: "ts_of row = t"
      by (simp_all add: parses_def ts_of_def)
    show ?thesis
    proof (cases "T < t")
      case True
      then have np: "\<not> (parses row \<and> ts_of row \<le> T)" using ts by simp
      let ?s' = "if p = p0 then self\<lparr>saved_timestamp := t\<rparr> else self"
      have rf: "read_file rm d T p self json = (None, ?s', json)"
        by (rule read_file_stop[OF e Inr True Cons.prems(3)])
      have "ready p ?s'" using Cons.prems(1) by (auto simp: ready_def)
      moreover have "pending d p ?s' = row # rest" using Cons.prems(2) by (auto simp: pending_def)
      ultimately show ?thesis
        using rf Inr ps ts
        by (intro exI[of _ ?s']) (simp add: rows_stop[OF np] merge_rows_def)
    next
      case False
      then have le: "ts_of row \<le> T" using ts by simp
      from next_row_ready[OF Cons.prems(1) e, of d] obtain nl self1 where
        nr: "next_row d p self = (Inr nl, self1)"
        and rdy: "ready p (set_next_line p nl self1)"
        and pnd: "pending d p (set_next_line p nl self1) = rest"
        using Cons.prems(2) by auto
      let ?s1 = "set_next_line p nl self1"
      let ?j1 = "if t = T then dict_merge json (from_csvdb rm (basename p) row) else json"
      have step: "read_file rm d T p self json = read_file rm d T p ?s1 ?j1"
        by (rule read_file_step[OF e Inr False nr])
      have fr: "filenames ?s1 = filenames self" "saved_timestamp ?s1 = saved_timestamp self"
        "\<forall>q. q \<noteq> p \<longrightarrow> tmp_read ?s1 q = tmp_read self q"
        "current_path ?s1 = current_path self"
        using next_row_frame[OF nr] next_row_frame'[OF nr] set_next_line_frame[of p nl self1]
          set_next_line_frame'[of p nl self1] by auto
      have "filenames ?s1 = p0 # ps" using fr Cons.prems(3) by simp
      from Cons.IH[OF rdy pnd this, of ?j1]
      obtain self' where
        *: "read_file rm d T p ?s1 ?j1 =
             (loop_error T rest, self',
              merge_rows rm p (filter (\<lambda>row. ts_of row = T) (rows_read T rest)) ?j1)"
           "ready p self'"
           "pending d p self' = rows_left T rest"
           "\<forall>q. q \<noteq> p \<longrightarrow> tmp_read self' q = tmp_read ?s1 q"
           "filenames self' = filenames ?s1"
           "current_path self' = current_path ?s1"
           "saved_timestamp self' =
             (case rows_left T rest of
                [] \<Rightarrow> saved_timestamp ?s1
              | row # _ \<Rightarrow> if p = p0 \<and> parses row then ts_of row else saved_timestamp ?s1)"
        by auto
      show ?thesis
        using step * fr ts
        by (intro exI[of _ self']) (auto simp: rows_step[OF ps le] merge_rows_def split: list.splits)
    qed
  qed
qed

subsection \<open>The saved timestamp never decreases\<close>

lemmas iterate_unfold = iterate.simps

declare iterate.simps [simp del]

lemma watermark_from_primary_cong:
  assumes "watermark_from_primary T s0 self"
    and "saved_timestamp self' = saved_timestamp self" "filenames self' = filenames self"
    and "\<And>p0 ps. filenames self = p0 # ps \<Longrightarrow> T < saved_timestamp self \<Longrightarrow>
           saved_timestamp self \<noteq> s0 \<Longrightarrow> tmp_read self' p0 = tmp_read self p0"
  shows "watermark_from_primary T s0 self'"
proof (cases "saved_timestamp self = s0")
  case True
  with assms(2) show ?thesis by (simp add: watermark_from_primary_def)
next
  case False
  with assms(1) obtain p0 ps e where
    *: "T < saved_timestamp self" "filenames self = p0 # ps" "tmp_read self p0 = Some e"
       "line_timestamp (next_line e) = Inr (saved_timestamp self)"
    by (auto simp: watermark_from_primary_def split: list.splits option.splits)
  from assms(4)[OF *(2) *(1) False] * assms(2,3) show ?thesis
    by (simp add: watermark_from_primary_def)
qed

lemma next_row_watermark:
  assumes "watermark_from_primary T s0 self"
    and "tmp_read self p = Some e" "next_line e = Row row" "row_timestamp row = Inr t" "\<not> T < t"
    and "next_row d p self = (res, self1)"
  shows "watermark_from_primary T s0 self1" "watermark_from_primary T s0 (set_next_line p nl self1)"
proof -
  have ne: "p \<noteq> p0" if "filenames self = p0 # ps" "T < saved_timestamp self" "saved_timestamp self \<noteq> s0"
    for p0 ps
    using that assms(1-5)
    by (auto simp: watermark_from_primary_def line_timestamp_def split: list.splits option.splits)
  show "watermark_from_primary T s0 self1"
    by (rule watermark_from_primary_cong[OF assms(1)])
       (use next_row_frame[OF assms(6)] next_row_frame'[OF assms(6)] ne in auto)
  show "watermark_from_primary T s0 (set_next_line p nl self1)"
    by (rule watermark_from_primary_cong[OF assms(1)])
       (use next_row_frame[OF assms(6)] next_row_frame'[OF assms(6)] ne
          set_next_line_frame[of p nl self1] set_next_line_frame'[of p nl self1] in auto)
qed

lemma read_file_watermark:
  "read_file rm d T p self json = (r, self', json') \<Longrightarrow> watermark_from_primary T s0 self \<Longrightarrow>
   watermark_from_primary T s0 self'"
proof (induction rm d T p self json rule: read_file.induct)
  case (1 rm d T p self json)
  show ?case
  proof (cases "tmp_read self p")
    case None
    with "1.prems" show ?thesis by (simp add: read_file_unfold[of rm d T p self json])
  next
    case (Some e)
    show ?thesis
    proof (cases "next_line e")
      case EmptyList
      with Some "1.prems" show ?thesis by (simp add: read_file_unfold[of rm d T p self json])
    next
      case NoneLine
      with Some "1.prems" show ?thesis by (simp add: read_file_unfold[of rm d T p self json])
    next
      case (Row row)
      show ?thesis
      proof (cases "row_timestamp row")
        case (Inl x)
        with Some Row "1.prems" show ?thesis by (simp add: read_file_unfold[of rm d T p self json])
      next
        case (Inr ts)
        show ?thesis
        proof (cases "T < ts")
          case True
          with Some Row Inr "1.prems" show ?thesis
            by (auto simp: read_file_unfold[of rm d T p self json] watermark_from_primary_def
                line_timestamp_def split: list.splits if_splits)
        next
          case False
          define j1 where "j1 = (if ts = T then dict_merge json (from_csvdb rm (basename p) row) else json)"
          obtain res self1 where nr: "next_row d p self = (res, self1)" by (cases "next_row d p self")
          note w = next_row_watermark[OF "1.prems"(2) Some Row Inr False nr]
          show ?thesis
          proof (cases res)
            case (Inl x)
            with nr Some Row Inr False "1.prems" have "self' = self1"
              by (simp add: read_file_unfold[of rm d T p self json] Let_def)
            with w(1) show ?thesis by simp
          next
            case (Inr nl)
            with nr Some Row \<open>row_timestamp row = Inr ts\<close> False "1.prems"
            have rec: "read_file rm d T p (set_next_line p nl self1) j1 = (r, self', json')"
              by (simp add: read_file_unfold[of rm d T p self json] Let_def j1_def)
            show ?thesis
              by (rule "1.IH"[OF Some Row \<open>row_timestamp row = Inr ts\<close> False j1_def nr[symmetric] Inr rec w(2)])
          qed
        qed
      qed
    qed
  qed
qed

lemma read_files_watermark:
  "read_files rm d T ps self json = (r, self', json') \<Longrightarrow> watermark_from_primary T s0 self \<Longrightarrow>
   watermark_from_primary T s0 self'"
proof (induction ps arbitrary: self json)
  case Nil
  then show ?case by simp
next
  case (Cons p ps)
  obtain r1 self1 j1 where one: "read_file rm d T p self json = (r1, self1, j1)"
    by (cases "read_file rm d T p self json")
  note w1 = read_file_watermark[OF one Cons.prems(2)]
  show ?case
  proof (cases r1)
    case None
    with Cons.prems(1) one have "read_files rm d T ps self1 j1 = (r, self', json')" by simp
    from Cons.IH[OF this w1] show ?thesis .
  next
    case (Some x)
    with Cons.prems(1) one have "self' = self1" by simp
    with w1 show ?thesis by simp
  qed
qed

lemma next_merged_record_watermark:
  assumes "next_merged_record rm d self = (res, self')"
  shows "watermark_from_primary (saved_timestamp self) (saved_timestamp self) self'"
proof -
  obtain r s1 j where rf: "read_files rm d (saved_timestamp self) (filenames self) self [] = (r, s1, j)"
    by (cases "read_files rm d (saved_timestamp self) (filenames self) self []")
  have "watermark_from_primary (saved_timestamp self) (saved_timestamp self) self"
    by (simp add: watermark_from_primary_def)
  from read_files_watermark[OF rf this] have "watermark_from_primary (saved_timestamp self) (saved_timestamp self) s1" .
  moreover from assms rf have "self' = s1"
    by (auto simp: next_merged_record_def split: option.splits if_splits)
  ultimately show ?thesis by simp
qed

lemma next_merged_record_mono:
  "next_merged_record rm d self = (res, self') \<Longrightarrow> saved_timestamp self \<le> saved_timestamp self'"
  using next_merged_record_watermark[of rm d self res self']
  by (auto simp: watermark_from_primary_def)

lemma iterate_lower:
  "(t, j) \<in> set (fst (iterate rm d self)) \<Longrightarrow> saved_timestamp self \<le> t"
proof (induction rm d self arbitrary: t j rule: iterate.induct)
  case (1 rm d self)
  obtain res self' where nm: "next_merged_record rm d self = (res, self')"
    by (cases "next_merged_record rm d self")
  show ?case
  proof (cases res)
    case (Inl x)
    with nm "1.prems" show ?thesis by (simp add: iterate_unfold[of rm d self])
  next
    case (Inr json)
    with nm "1.prems" have "(t, j) = (saved_timestamp self, json) \<or> (t, j) \<in> set (fst (iterate rm d self'))"
      by (auto simp: iterate_unfold[of rm d self] split: prod.splits)
    then show ?thesis
    proof
      assume "(t, j) = (saved_timestamp self, json)"
      then show ?thesis by simp
    next
      assume "(t, j) \<in> set (fst (iterate rm d self'))"
      from "1.IH"[OF nm[symmetric] Inr this] next_merged_record_mono[OF nm]
      show ?thesis by simp
    qed
  qed
qed

lemma iterate_sorted: "sorted (map fst (fst (iterate rm d self)))"
proof (induction rm d self rule: iterate.induct)
  case (1 rm d self)
  obtain res self' where nm: "next_merged_record rm d self = (res, self')"
    by (cases "next_merged_record rm d self")
  show ?case
  proof (cases res)
    case (Inl x)
    with nm show ?thesis by (simp add: iterate_unfold[of rm d self])
  next
    case (Inr json)
    with nm have it: "fst (iterate rm d self) = (saved_timestamp self, json) # fst (iterate rm d self')"
      by (simp add: iterate_unfold[of rm d self] split: prod.splits)
    have "\<forall>x \<in> set (fst (iterate rm d self')). saved_timestamp self \<le> fst x"
      using iterate_lower[of _ _ rm d self'] next_merged_record_mono[OF nm] by fastforce
    with "1.IH"[OF nm[symmetric] Inr] it show ?thesis by simp
  qed
qed

text \<open>
  C9.  The timestamps of the records that the iteration yields, taken in the order of the
  steps, never decrease.  A step leaves the saved timestamp as it was or replaces it by a
  strictly greater one, which is then the timestamp of the lookahead row of the first
  registered file.
\<close>

theorem iterate_timestamps_sorted:
  "sorted (map fst (fst (iterate rm d self))) \<and>
   (\<forall>res self'. next_merged_record rm d self = (res, self') \<longrightarrow>
      saved_timestamp self' = saved_timestamp self \<or>
      (saved_timestamp self < saved_timestamp self' \<and>
       (\<exists>p0 ps e. filenames self' = p0 # ps \<and> tmp_read self' p0 = Some e \<and>
          line_timestamp (next_line e) = Inr (saved_timestamp self'))))"
proof -
  have "saved_timestamp self' = saved_timestamp self \<or>
      (saved_timestamp self < saved_timestamp self' \<and>
       (\<exists>p0 ps e. filenames self' = p0 # ps \<and> tmp_read self' p0 = Some e \<and>
          line_timestamp (next_line e) = Inr (saved_timestamp self')))"
    if "next_merged_record rm d self = (res, self')" for res self'
    using next_merged_record_watermark[OF that]
    by (auto simp: watermark_from_primary_def split: list.splits option.splits)
  with iterate_sorted[of rm d self] show ?thesis by blast
qed

text \<open>
  C8.  In the loop over the file of a connected entry at the watermark \<open>T\<close>, a lookahead
  row whose timestamp is strictly less than \<open>T\<close> is consumed without effect: reading the
  next row succeeds and moves the file object forward, the rows still to come from the file
  are the ones after that row, and nothing else of the store changes.  The loop returns
  what it returns from there with the accumulator unchanged: it takes the leading rows, of
  the rows after that row, that have a timestamp not beyond \<open>T\<close>, merges those at \<open>T\<close>
  into the accumulator and leaves the others to come; it raises only if the first row that
  it leaves has no timestamp, so that it does not raise when every row after has one.
\<close>

theorem read_file_behind_watermark:
  assumes "ready p self" and "pending d p self = row # rest"
    and "row_timestamp row = Inr t" and "t < T" and "p \<in> set (filenames self)"
  shows "\<exists>nl self1 self'.
           next_row d p self = (Inr nl, self1) \<and>
           ready p (set_next_line p nl self1) \<and>
           pending d p (set_next_line p nl self1) = rest \<and>
           unread d p (set_next_line p nl self1) < unread d p self \<and>
           (\<forall>q. q \<noteq> p \<longrightarrow> tmp_read (set_next_line p nl self1) q = tmp_read self q) \<and>
           filenames (set_next_line p nl self1) = filenames self \<and>
           saved_timestamp (set_next_line p nl self1) = saved_timestamp self \<and>
           read_file rm d T p self json = read_file rm d T p (set_next_line p nl self1) json \<and>
           read_file rm d T p self json =
             (loop_error T rest, self',
              merge_rows rm p (filter (\<lambda>r. ts_of r = T) (rows_read T rest)) json) \<and>
           ready p self' \<and>
           pending d p self' = rows_left T rest \<and>
           (\<forall>q. q \<noteq> p \<longrightarrow> tmp_read self' q = tmp_read self q) \<and>
           filenames self' = filenames self \<and>
           current_path self' = current_path self \<and>
           saved_timestamp self' =
             (case rows_left T rest of
                [] \<Rightarrow> saved_timestamp self
              | r # _ \<Rightarrow> if p = hd (filenames self) \<and> parses r then ts_of r
                         else saved_timestamp self) \<and>
           ((\<forall>r \<in> set rest. parses r) \<longrightarrow> fst (read_file rm d T p self json) = None)"
proof -
  from assms(5) obtain p0 ps where fn: "filenames self = p0 # ps"
    by (cases "filenames self") auto
  from pending_Cons[OF assms(2)] obtain e where
    e: "tmp_read self p = Some e" "next_line e = Row row" by blast
  from next_row_ready[OF assms(1) e, of d] assms(2) obtain nl self1 where
    nr: "next_row d p self = (Inr nl, self1)"
    and rdy: "ready p (set_next_line p nl self1)"
    and pnd: "pending d p (set_next_line p nl self1) = rest"
    by auto
  let ?s1 = "set_next_line p nl self1"
  have dec: "unread d p ?s1 < unread d p self"
    by (rule next_row_unread[OF nr e])
  have fr: "filenames ?s1 = filenames self" "saved_timestamp ?s1 = saved_timestamp self"
    "\<forall>q. q \<noteq> p \<longrightarrow> tmp_read ?s1 q = tmp_read self q"
    "current_path ?s1 = current_path self"
    using next_row_frame[OF nr] next_row_frame'[OF nr] set_next_line_frame[of p nl self1]
      set_next_line_frame'[of p nl self1] by auto
  from assms(4) have nt: "\<not> T < t" "t \<noteq> T" by simp_all
  have step: "read_file rm d T p self json = read_file rm d T p ?s1 json"
    using read_file_step[OF e assms(3) nt(1) nr, of rm json] nt(2) by simp
  have fn1: "filenames ?s1 = p0 # ps" using fr fn by simp
  from read_file_loop[OF rdy pnd fn1, of rm T json] obtain self' where
    *: "read_file rm d T p ?s1 json =
          (loop_error T rest, self',
           merge_rows rm p (filter (\<lambda>row. ts_of row = T) (rows_read T rest)) json)"
       "ready p self'"
       "pending d p self' = rows_left T rest"
       "\<forall>q. q \<noteq> p \<longrightarrow> tmp_read self' q = tmp_read ?s1 q"
       "filenames self' = filenames ?s1"
       "current_path self' = current_path ?s1"
       "saved_timestamp self' =
          (case rows_left T rest of
             [] \<Rightarrow> saved_timestamp ?s1
           | row # _ \<Rightarrow> if p = p0 \<and> parses row then ts_of row else saved_timestamp ?s1)"
    by auto
  have res: "read_file rm d T p self json =
          (loop_error T rest, self',
           merge_rows rm p (filter (\<lambda>row. ts_of row = T) (rows_read T rest)) json)"
    using step *(1) by simp
  have frame: "\<forall>q. q \<noteq> p \<longrightarrow> tmp_read self' q = tmp_read self q"
    using *(4) fr(3) by simp
  have fns: "filenames self' = filenames self" using *(5) fr(1) by simp
  have cps: "current_path self' = current_path self" using *(6) fr(4) by simp
  have sv: "saved_timestamp self' =
             (case rows_left T rest of
                [] \<Rightarrow> saved_timestamp self
              | r # _ \<Rightarrow> if p = hd (filenames self) \<and> parses r then ts_of r
                         else saved_timestamp self)"
    using *(7) fr(2) fn by (simp split: list.splits)
  have ok: "(\<forall>r \<in> set rest. parses r) \<longrightarrow> fst (read_file rm d T p self json) = None"
    using res loop_error_parses[of rest T] by simp
  show ?thesis
    apply (rule exI[of _ nl], rule exI[of _ self1], rule exI[of _ self'])
    apply (intro conjI nr rdy pnd dec fr(3) fr(1) fr(2) step res *(2) *(3) frame fns cps sv ok)
    done
qed

lemma connected_behind_ready: "ready b_path connected_behind"
  by code_simp

lemma connected_behind_pending:
  "pending disk_behind b_path connected_behind =
     [(Some ''timestamp'', Text ''1''), (Some ''sensor'', Text ''s1''), (Some ''target'', Text ''t1''),
      (Some ''socket'', Text ''0''), (Some ''cpu'', Text ''0''), (Some ''freq'', Text ''2400'')] #
     [[(Some ''timestamp'', Text ''2''), (Some ''sensor'', Text ''s1''), (Some ''target'', Text ''t1''),
       (Some ''socket'', Text ''0''), (Some ''cpu'', Text ''0''), (Some ''freq'', Text ''2500'')]]"
  by code_simp

lemma behind_row_timestamp:
  "row_timestamp [(Some ''timestamp'', Text ''1''), (Some ''sensor'', Text ''s1''), (Some ''target'', Text ''t1''),
      (Some ''socket'', Text ''0''), (Some ''cpu'', Text ''0''), (Some ''freq'', Text ''2400'')] = Inr 1"
  by code_simp

lemma connected_behind_registered: "b_path \<in> set (filenames connected_behind)"
  by code_simp

lemma behind_rest:
  "loop_error 2 [[(Some ''timestamp'', Text ''2''), (Some ''sensor'', Text ''s1''), (Some ''target'', Text ''t1''),
       (Some ''socket'', Text ''0''), (Some ''cpu'', Text ''0''), (Some ''freq'', Text ''2500'')]] = None"
  "rows_read 2 [[(Some ''timestamp'', Text ''2''), (Some ''sensor'', Text ''s1''), (Some ''target'', Text ''t1''),
       (Some ''socket'', Text ''0''), (Some ''cpu'', Text ''0''), (Some ''freq'', Text ''2500'')]] =
     [[(Some ''timestamp'', Text ''2''), (Some ''sensor'', Text ''s1''), (Some ''target'', Text ''t1''),
       (Some ''socket'', Text ''0''), (Some ''cpu'', Text ''0''), (Some ''freq'', Text ''2500'')]]"
  "rows_left 2 [[(Some ''timestamp'', Text ''2''), (Some ''sensor'', Text ''s1''), (Some ''target'', Text ''t1''),
       (Some ''socket'', Text ''0''), (Some ''cpu'', Text ''0''), (Some ''freq'', Text ''2500'')]] = []"
  "ts_of [(Some ''timestamp'', Text ''2''), (Some ''sensor'', Text ''s1''), (Some ''target'', Text ''t1''),
       (Some ''socket'', Text ''0''), (Some ''cpu'', Text ''0''), (Some ''freq'', Text ''2500'')] = 2"
  by code_simp+

lemma behind_merged:
  "merge_rows example_rm b_path
     [[(Some ''timestamp'', Text ''2''), (Some ''sensor'', Text ''s1''), (Some ''target'', Text ''t1''),
       (Some ''socket'', Text ''0''), (Some ''cpu'', Text ''0''), (Some ''freq'', Text ''2500'')]] [] =
   [(''timestamp'', PStr ''2''), (''sensor'', PStr ''s1''), (''target'', PStr ''t1''),
    (''socket'', PStr ''0''), (''cpu'', PStr ''0''), (''B.csv'', PDict [(''freq'', PStr ''2500'')])]"
  by code_simp

theorem read_file_behind_watermark_witness:
  "saved_timestamp connected_behind = 2 \<and>
   (\<exists>self'.
      read_file example_rm disk_behind 2 b_path connected_behind [] =
        (None, self',
         [(''timestamp'', PStr ''2''), (''sensor'', PStr ''s1''), (''target'', PStr ''t1''),
          (''socket'', PStr ''0''), (''cpu'', PStr ''0''), (''B.csv'', PDict [(''freq'', PStr ''2500'')])]) \<and>
      pending disk_behind b_path self' = [] \<and>
      tmp_read self' a_path = tmp_read connected_behind a_path \<and>
      saved_timestamp self' = 2)"
proof -
  have lt: "(1::int) < 2" by simp
  have sv: "saved_timestamp connected_behind = 2" by code_simp
  have ne: "a_path \<noteq> b_path" by (simp add: a_path_def b_path_def)
  from read_file_behind_watermark[OF connected_behind_ready connected_behind_pending
      behind_row_timestamp lt connected_behind_registered, of example_rm "[]"]
  obtain self' where
    "read_file example_rm disk_behind 2 b_path connected_behind [] =
       (loop_error 2 [[(Some ''timestamp'', Text ''2''), (Some ''sensor'', Text ''s1''), (Some ''target'', Text ''t1''),
           (Some ''socket'', Text ''0''), (Some ''cpu'', Text ''0''), (Some ''freq'', Text ''2500'')]], self',
        merge_rows example_rm b_path (filter (\<lambda>r. ts_of r = 2)
          (rows_read 2 [[(Some ''timestamp'', Text ''2''), (Some ''sensor'', Text ''s1''), (Some ''target'', Text ''t1''),
           (Some ''socket'', Text ''0''), (Some ''cpu'', Text ''0''), (Some ''freq'', Text ''2500'')]])) [])"
    "pending disk_behind b_path self' =
       rows_left 2 [[(Some ''timestamp'', Text ''2''), (Some ''sensor'', Text ''s1''), (Some ''target'', Text ''t1''),
           (Some ''socket'', Text ''0''), (Some ''cpu'', Text ''0''), (Some ''freq'', Text ''2500'')]]"
    "\<forall>q. q \<noteq> b_path \<longrightarrow> tmp_read self' q = tmp_read connected_behind q"
    "saved_timestamp self' =
       (case rows_left 2 [[(Some ''timestamp'', Text ''2''), (Some ''sensor'', Text ''s1''), (Some ''target'', Text ''t1''),
           (Some ''socket'', Text ''0''), (Some ''cpu'', Text ''0''), (Some ''freq'', Text ''2500'')]] of
          [] \<Rightarrow> saved_timestamp connected_behind
        | r # _ \<Rightarrow> if b_path = hd (filenames connected_behind) \<and> parses r then ts_of r
                   else saved_timestamp connected_behind)"
    by blast
  with sv ne show ?thesis
    by (intro conjI exI[of _ self']) (simp_all add: behind_rest behind_merged)
qed

theorem iterate_timestamps_sorted_witness:
  "map fst (fst (iterate example_rm disk_ab connected_ab)) = [1, 2] \<and>
   sorted (map fst (fst (iterate example_rm disk_ab connected_ab))) \<and>
   saved_timestamp connected_ab = 1 \<and>
   saved_timestamp (snd (next_merged_record example_rm disk_ab connected_ab)) = 2 \<and>
   (\<exists>p0 ps e. filenames (snd (next_merged_record example_rm disk_ab connected_ab)) = p0 # ps \<and>
      tmp_read (snd (next_merged_record example_rm disk_ab connected_ab)) p0 = Some e \<and>
      line_timestamp (next_line e) = Inr 2)"
proof -
  have a: "map fst (fst (iterate example_rm disk_ab connected_ab)) = [1, 2]" by code_simp
  have b: "saved_timestamp connected_ab = 1" by code_simp
  have c: "saved_timestamp (snd (next_merged_record example_rm disk_ab connected_ab)) = 2" by code_simp
  have d: "next_merged_record example_rm disk_ab connected_ab =
     (fst (next_merged_record example_rm disk_ab connected_ab),
      snd (next_merged_record example_rm disk_ab connected_ab))" by simp
  from iterate_timestamps_sorted[of example_rm disk_ab connected_ab] d
  have "sorted (map fst (fst (iterate example_rm disk_ab connected_ab)))"
    and "saved_timestamp (snd (next_merged_record example_rm disk_ab connected_ab)) = saved_timestamp connected_ab \<or>
      (saved_timestamp connected_ab < saved_timestamp (snd (next_merged_record example_rm disk_ab connected_ab)) \<and>
       (\<exists>p0 ps e. filenames (snd (next_merged_record example_rm disk_ab connected_ab)) = p0 # ps \<and>
          tmp_read (snd (next_merged_record example_rm disk_ab connected_ab)) p0 = Some e \<and>
          line_timestamp (next_line e) = Inr (saved_timestamp (snd (next_merged_record example_rm disk_ab connected_ab)))))"
    by blast+
  with a b c show ?thesis by simp
qed

subsection \<open>Opening and priming the files\<close>

lemma update_keys: "fst ` set (AList.update k v al) = insert k (fst ` set al)"
  by (induction al) auto

lemma fold_update_zip_keys:
  "fst ` set (fold (\<lambda>(k, v). AList.update (Some k) (Text v)) kvs al) =
     Some ` fst ` set kvs \<union> fst ` set al"
proof (induction kvs arbitrary: al)
  case Nil
  then show ?case by simp
next
  case (Cons kv kvs)
  obtain k v where kv: "kv = (k, v)" by (cases kv)
  have "fst ` set (fold (\<lambda>(k, v). AList.update (Some k) (Text v)) kvs (AList.update (Some k) (Text v) al)) =
        Some ` fst ` set kvs \<union> insert (Some k) (fst ` set al)"
    by (simp only: Cons.IH update_keys)
  then show ?case by (simp add: kv)
qed

lemma fold_update_missing_keys:
  "fst ` set (fold (\<lambda>k. AList.update (Some k) Missing) ks al) = Some ` set ks \<union> fst ` set al"
proof (induction ks arbitrary: al)
  case Nil
  then show ?case by simp
next
  case (Cons k ks)
  have "fst ` set (fold (\<lambda>k. AList.update (Some k) Missing) ks (AList.update (Some k) Missing al)) =
        Some ` set ks \<union> insert (Some k) (fst ` set al)"
    by (simp only: Cons.IH update_keys)
  then show ?case by simp
qed

lemma zip_fst_set: "fst ` set (zip xs ys) = set (take (length ys) xs)"
proof -
  have "fst ` set (zip xs ys) = set (map fst (zip xs ys))" by simp
  also have "\<dots> = set (take (length ys) xs)" by (simp only: map_fst_zip_take min.commute) (metis take_all_iff linear min_def take_take)
  finally show ?thesis .
qed

lemma make_dict_keys: "Some k \<in> fst ` set (make_dict h row) \<longleftrightarrow> k \<in> set h"
proof -
  have split: "set h = set (take (length row) h) \<union> set (drop (length row) h)"
    by (metis append_take_drop_id set_append)
  show ?thesis
  proof (cases "length h \<le> length row")
    case True
    then show ?thesis
      by (auto simp: make_dict_def Let_def update_keys fold_update_zip_keys zip_fst_set)
  next
    case False
    then show ?thesis
      using split
      by (auto simp: make_dict_def Let_def fold_update_missing_keys fold_update_zip_keys zip_fst_set)
  qed
qed

lemma check_common_keys_row:
  "set ks \<subseteq> set h \<Longrightarrow> check_common_keys ks (Row (make_dict h row)) = None"
  by (induction ks) (auto simp: make_dict_keys)

lemma check_common_keys_NoneLine: "check_common_keys KEYS_COMMON NoneLine = Some TypeError"
  by (simp add: KEYS_COMMON_def)

lemma reader_next_fresh_Nil:
  "reader_next [] (\<lparr>fieldnames = None\<rparr>, \<lparr>closed = False, pos = 0\<rparr>) =
     (Inl StopIteration, \<lparr>fieldnames = None\<rparr>, \<lparr>closed = False, pos = 0\<rparr>)"
  by (simp add: reader_next_def)

lemma reader_next_fresh_Cons:
  "reader_next (h # rs) (\<lparr>fieldnames = None\<rparr>, \<lparr>closed = False, pos = 0\<rparr>) =
     reader_next (h # rs) (\<lparr>fieldnames = Some h\<rparr>, \<lparr>closed = False, pos = Suc 0\<rparr>)"
  by (simp add: reader_next_def Let_def)

lemma file_rows_Nil_cases:
  "file_rows d p = [] \<Longrightarrow>
   read_records d p = [] \<or>
   (\<exists>h rs. read_records d p = h # rs \<and> dropWhile (\<lambda>x. x = []) rs = [])"
  by (auto simp: file_rows_def filter_empty_conv split: list.splits)

lemma next_row_opened_empty:
  assumes "file_rows d p = []"
  shows "\<exists>self2. next_row d p (opened p e self) = (Inr NoneLine, self2)"
  using file_rows_Nil_cases[OF assms]
proof
  assume "read_records d p = []"
  then show ?thesis
    by (simp add: next_row_def opened_def reader_next_fresh_Nil)
next
  assume "\<exists>h rs. read_records d p = h # rs \<and> dropWhile (\<lambda>x. x = []) rs = []"
  then obtain h rs where r: "read_records d p = h # rs" "dropWhile (\<lambda>x. x = []) rs = []" by blast
  have "dropWhile (\<lambda>x. x = []) (drop (pos \<lparr>closed = False, pos = Suc 0\<rparr>) (h # rs)) = []"
    using r(2) by simp
  from reader_next_eof[where r="\<lparr>fieldnames = Some h\<rparr>" and h=h, OF _ _ this]
  show ?thesis
    using r(1) by (simp add: next_row_def opened_def reader_next_fresh_Cons)
qed

lemma next_row_opened_good:
  assumes "good_file d p"
  shows "\<exists>nl self2. next_row d p (opened p e self) = (Inr nl, self2) \<and>
           check_common_keys KEYS_COMMON nl = None \<and>
           ready p (set_next_line p nl self2) \<and>
           pending d p (set_next_line p nl self2) = file_rows d p"
proof -
  from assms obtain f h rs where
    f: "d p = Some f" "readable f" "text_mode (records f) = h # rs" "set KEYS_COMMON \<subseteq> set h"
       "filter (\<lambda>r. r \<noteq> []) rs \<noteq> []"
    by (auto simp: good_file_def split: option.splits list.splits)
  have rr: "read_records d p = h # rs" using f by (simp add: read_records_def)
  obtain y ys where dw: "dropWhile (\<lambda>x. x = []) rs = y # ys"
    using f(5) by (cases "dropWhile (\<lambda>x. x = []) rs") (auto simp: filter_empty_conv)
  have flt: "filter (\<lambda>x. x \<noteq> []) rs = y # filter (\<lambda>x. x \<noteq> []) ys"
    using dropWhile_Cons_filter[OF dw] by simp
  let ?k = "length (takeWhile (\<lambda>x. x = []) rs)"
  have drp: "drop (Suc ?k) rs = ys"
    using dropWhile_Cons_drop[of "\<lambda>x. x = []" 0 rs y ys] dw by simp
  have dw': "dropWhile (\<lambda>x. x = []) (drop (pos \<lparr>closed = False, pos = Suc 0\<rparr>) (h # rs)) = y # ys"
    using dw by simp
  let ?e1 = "e\<lparr>reader := Some \<lparr>fieldnames = Some h\<rparr>,
                fileobj := Some \<lparr>closed = False, pos = Suc (Suc ?k)\<rparr>\<rparr>"
  let ?s2 = "(opened p e self)\<lparr>tmp_read := (tmp_read (opened p e self))(p \<mapsto> ?e1)\<rparr>"
  have nr: "next_row d p (opened p e self) = (Inr (Row (make_dict h y)), ?s2)"
    using reader_next_row[where r="\<lparr>fieldnames = Some h\<rparr>" and h=h, OF _ _ dw'] rr
    by (simp add: next_row_def opened_def reader_next_fresh_Cons)
  have "check_common_keys KEYS_COMMON (Row (make_dict h y)) = None"
    by (rule check_common_keys_row[OF f(4)])
  moreover have "ready p (set_next_line p (Row (make_dict h y)) ?s2)"
    by (simp add: set_next_line_def ready_def opened_def)
  moreover have "pending d p (set_next_line p (Row (make_dict h y)) ?s2) = file_rows d p"
    using rr flt drp by (simp add: set_next_line_def pending_def opened_def file_rows_def)
  ultimately show ?thesis using nr by blast
qed

lemma opened_frame:
  "filenames (opened p e self) = filenames self"
  "saved_timestamp (opened p e self) = saved_timestamp self"
  "current_path (opened p e self) = current_path self"
  "q \<noteq> p \<Longrightarrow> tmp_read (opened p e self) q = tmp_read self q"
  "dom (tmp_read (opened p e self)) = insert p (dom (tmp_read self))"
  by (auto simp: opened_def)

lemma next_row_dom:
  "next_row d p self = (res, self') \<Longrightarrow> dom (tmp_read self') = dom (tmp_read self)"
  by (auto simp: next_row_def Let_def split: option.splits prod.splits sum.splits if_splits)

lemma set_next_line_dom: "dom (tmp_read (set_next_line p nl self)) = dom (tmp_read self)"
  by (auto simp: set_next_line_def split: option.splits)

lemma open_files_Cons_ok:
  assumes "open_read d p = Inr rows" "tmp_read self p = Some e"
    and "next_row d p (opened p e self) = (Inr nl, self2)"
  shows "open_files d (p # rest) self =
           (case check_common_keys KEYS_COMMON nl of
              Some x \<Rightarrow> (Some x, set_next_line p nl self2)
            | None \<Rightarrow> open_files d rest (set_next_line p nl self2))"
  using assms by (simp add: opened_def Let_def)

lemma open_files_append:
  "open_files d (xs @ ys) self =
     (case open_files d xs self of
        (Some x, s) \<Rightarrow> (Some x, s)
      | (None, s) \<Rightarrow> open_files d ys s)"
proof (induction xs arbitrary: self)
  case Nil
  then show ?case by simp
next
  case (Cons p xs)
  show ?case
    by (simp add: Cons.IH Let_def split: sum.splits option.splits prod.splits)
qed

lemma good_file_open: "good_file d p \<Longrightarrow> \<exists>rows. open_read d p = Inr rows"
  by (auto simp: good_file_def open_read_def split: option.splits)

lemma open_files_good:
  assumes "\<forall>q \<in> set qs. good_file d q \<and> q \<in> dom (tmp_read self)"
  shows "\<exists>self'. open_files d qs self = (None, self') \<and>
           (\<forall>q \<in> set qs. ready q self' \<and> pending d q self' = file_rows d q) \<and>
           (\<forall>q. q \<notin> set qs \<longrightarrow> tmp_read self' q = tmp_read self q) \<and>
           dom (tmp_read self') = dom (tmp_read self) \<and>
           filenames self' = filenames self \<and>
           saved_timestamp self' = saved_timestamp self \<and>
           current_path self' = current_path self"
  using assms
proof (induction qs arbitrary: self)
  case Nil
  then show ?case by simp
next
  case (Cons p qs)
  from Cons.prems obtain e where e: "tmp_read self p = Some e" by auto
  from Cons.prems have good: "good_file d p" by simp
  from good_file_open[OF good] obtain rows where op: "open_read d p = Inr rows" by blast
  from next_row_opened_good[OF good, where e=e and self=self] obtain nl self2 where
    nr: "next_row d p (opened p e self) = (Inr nl, self2)"
    and ck: "check_common_keys KEYS_COMMON nl = None"
    and rdy: "ready p (set_next_line p nl self2)"
    and pnd: "pending d p (set_next_line p nl self2) = file_rows d p"
    by blast
  let ?s3 = "set_next_line p nl self2"
  have step: "open_files d (p # qs) self = open_files d qs ?s3"
    using open_files_Cons_ok[OF op e nr] ck by simp
  have dom3: "dom (tmp_read ?s3) = dom (tmp_read self)"
    using set_next_line_dom[of p nl self2] next_row_dom[OF nr] opened_frame(5)[where p=p and e=e and self=self] e
    by auto
  have fr3: "filenames ?s3 = filenames self" "saved_timestamp ?s3 = saved_timestamp self"
    "current_path ?s3 = current_path self"
    "\<forall>q. q \<noteq> p \<longrightarrow> tmp_read ?s3 q = tmp_read self q"
    using next_row_frame[OF nr] next_row_frame'[OF nr] set_next_line_frame[of p nl self2]
      set_next_line_frame'[of p nl self2] opened_frame(1-4)[where p=p and e=e and self=self]
    by auto
  have "\<forall>q \<in> set qs. good_file d q \<and> q \<in> dom (tmp_read ?s3)"
    using Cons.prems dom3 by simp
  from Cons.IH[OF this] obtain self' where
    *: "open_files d qs ?s3 = (None, self')"
       "\<forall>q \<in> set qs. ready q self' \<and> pending d q self' = file_rows d q"
       "\<forall>q. q \<notin> set qs \<longrightarrow> tmp_read self' q = tmp_read ?s3 q"
       "dom (tmp_read self') = dom (tmp_read ?s3)"
       "filenames self' = filenames ?s3"
       "saved_timestamp self' = saved_timestamp ?s3"
       "current_path self' = current_path ?s3"
    by blast
  have "ready p self' \<and> pending d p self' = file_rows d p"
  proof (cases "p \<in> set qs")
    case True
    with *(2) show ?thesis by blast
  next
    case False
    with *(3) have "tmp_read self' p = tmp_read ?s3 p" by blast
    with rdy pnd show ?thesis
      using ready_cong[of self' p ?s3] pending_cong[of self' p ?s3 d] by simp
  qed
  with * step dom3 fr3 show ?case
    by (intro exI[of _ self']) auto
qed

lemma close_files_ok:
  assumes "set qs \<subseteq> dom (tmp_read self)"
  shows "\<exists>self'. close_files qs self = (None, self') \<and>
           dom (tmp_read self') = dom (tmp_read self) \<and>
           filenames self' = filenames self \<and>
           saved_timestamp self' = saved_timestamp self \<and>
           current_path self' = current_path self"
  using assms
proof (induction qs arbitrary: self)
  case Nil
  then show ?case by simp
next
  case (Cons p qs)
  from Cons.prems obtain e where e: "tmp_read self p = Some e" by auto
  let ?s1 = "case fileobj e of None \<Rightarrow> self
             | Some f \<Rightarrow> self\<lparr>tmp_read := (tmp_read self)(p \<mapsto> e\<lparr>fileobj := Some (f\<lparr>closed := True\<rparr>)\<rparr>)\<rparr>"
  have fr: "dom (tmp_read ?s1) = dom (tmp_read self)" "filenames ?s1 = filenames self"
    "saved_timestamp ?s1 = saved_timestamp self" "current_path ?s1 = current_path self"
    using e by (auto split: option.splits)
  then have "set qs \<subseteq> dom (tmp_read ?s1)" using Cons.prems by simp
  from Cons.IH[OF this] fr e show ?case by simp
qed

lemma close_files_filenames: "filenames (snd (close_files qs self)) = filenames self"
proof (induction qs arbitrary: self)
  case Nil
  then show ?case by simp
next
  case (Cons p qs)
  show ?case
    by (cases "tmp_read self p") (auto simp: Cons.IH split: option.splits)
qed

lemma open_files_fail:
  assumes "\<exists>q \<in> set qs. \<exists>x. open_read d q = Inl x"
  shows "fst (open_files d qs self) \<noteq> None"
  using assms
proof (induction qs arbitrary: self)
  case Nil
  then show ?case by simp
next
  case (Cons p qs)
  show ?case
  proof (cases "open_read d p")
    case (Inl x)
    then show ?thesis by simp
  next
    case (Inr rows)
    with Cons.prems have "\<exists>q \<in> set qs. \<exists>x. open_read d q = Inl x" by auto
    from Cons.IH[OF this] Inr show ?thesis
      by (auto simp: Let_def split: option.splits prod.splits sum.splits)
  qed
qed

lemma open_files_Cons_missing:
  "d p = None \<Longrightarrow> open_files d (p # rest) self = (Some CsvBadFilePathError, self)"
  by (simp add: open_read_def)

lemma open_files_Cons_denied:
  "d p = Some f \<Longrightarrow> \<not> readable f \<Longrightarrow> open_files d (p # rest) self = (Some PermissionError, self)"
  by (simp add: open_read_def)

lemma open_files_Cons_empty:
  assumes "d p = Some f" "readable f" "file_rows d p = []" "tmp_read self p = Some e"
  shows "fst (open_files d (p # rest) self) = Some TypeError"
proof -
  from next_row_opened_empty[OF assms(3), where e=e and self=self] obtain self2 where
    nr: "next_row d p (opened p e self) = (Inr NoneLine, self2)" by blast
  have op: "open_read d p = Inr (text_mode (records f))"
    using assms(1,2) by (simp add: open_read_def)
  show ?thesis
    using open_files_Cons_ok[OF op assms(4) nr] check_common_keys_NoneLine by simp
qed

text \<open>The outcome of \<open>connect\<close> is decided by the first registered file that is not good.\<close>

lemma connect_first_bad:
  assumes "set (filenames self) \<subseteq> dom (tmp_read self)"
    and "filenames self = pre @ p # post" and "\<forall>q \<in> set pre. good_file d q"
    and "\<And>s. p \<in> dom (tmp_read s) \<Longrightarrow> fst (open_files d (p # post) s) = Some x"
  shows "fst (connect d self) = Some x"
proof -
  from close_files_ok[OF assms(1)] obtain s1 where
    c: "close_files (filenames self) self = (None, s1)"
       "dom (tmp_read s1) = dom (tmp_read self)" "filenames s1 = filenames self"
    by blast
  have "\<forall>q \<in> set pre. good_file d q \<and> q \<in> dom (tmp_read s1)"
    using assms(1,2,3) c(2) by auto
  from open_files_good[OF this] obtain s2 where
    o: "open_files d pre s1 = (None, s2)" "dom (tmp_read s2) = dom (tmp_read s1)"
    by blast
  have "p \<in> dom (tmp_read s2)" using assms(1,2) c(2) o(2) by auto
  from assms(4)[OF this] have "fst (open_files d (pre @ p # post) s1) = Some x"
    by (simp add: open_files_append o(1))
  then show ?thesis
    using c assms(2)
    by (auto simp: connect_def split: prod.splits option.splits)
qed

lemma open_files_saved: "saved_timestamp (snd (open_files d qs self)) = saved_timestamp self"
proof (induction qs arbitrary: self)
  case Nil
  then show ?case by simp
next
  case (Cons p qs)
  show ?case
  proof (cases "open_read d p")
    case (Inl x)
    then show ?thesis by simp
  next
    case (Inr rows)
    show ?thesis
    proof (cases "tmp_read self p")
      case None
      with Inr show ?thesis by simp
    next
      case (Some e)
      obtain res self2 where nr: "next_row d p (opened p e self) = (res, self2)"
        by (cases "next_row d p (opened p e self)")
      have s2: "saved_timestamp self2 = saved_timestamp self"
        using next_row_frame'[OF nr] by (simp add: opened_def)
      show ?thesis
      proof (cases res)
        case (Inl x)
        with Inr Some nr s2 show ?thesis by (simp add: opened_def)
      next
        case r: (Inr nl)
        have "saved_timestamp (set_next_line p nl self2) = saved_timestamp self"
          using s2 set_next_line_frame'[of p nl self2] by simp
        with Inr Some nr r Cons.IH[of "set_next_line p nl self2"] show ?thesis
          by (cases "check_common_keys KEYS_COMMON nl") (simp_all add: opened_def Let_def)
      qed
    qed
  qed
qed

lemma close_files_saved: "saved_timestamp (snd (close_files qs self)) = saved_timestamp self"
proof (induction qs arbitrary: self)
  case Nil
  then show ?case by simp
next
  case (Cons p qs)
  show ?case
    by (cases "tmp_read self p") (auto simp: Cons.IH split: option.splits)
qed

lemma connect_failed_saved:
  assumes "fst (connect d self) \<noteq> None"
  shows "saved_timestamp (snd (connect d self)) = saved_timestamp self"
proof -
  obtain r1 s1 where c: "close_files (filenames self) self = (r1, s1)"
    by (cases "close_files (filenames self) self")
  have s1: "saved_timestamp s1 = saved_timestamp self"
    using close_files_saved[of "filenames self" self] c by simp
  obtain r2 s2 where o: "open_files d (filenames s1) s1 = (r2, s2)"
    by (cases "open_files d (filenames s1) s1")
  have s2: "saved_timestamp s2 = saved_timestamp self"
    using open_files_saved[of d "filenames s1" s1] o s1 by simp
  show ?thesis
    using assms c o s1 s2
    by (auto simp: connect_def split: option.splits list.splits sum.splits)
qed

lemma connect_open_fail:
  assumes "\<exists>q \<in> set (filenames self). \<exists>x. open_read d q = Inl x"
  shows "fst (connect d self) \<noteq> None"
proof -
  obtain r1 s1 where c: "close_files (filenames self) self = (r1, s1)"
    by (cases "close_files (filenames self) self")
  have f1: "filenames s1 = filenames self"
    using close_files_filenames[of "filenames self" self] c by simp
  have "fst (open_files d (filenames s1) s1) \<noteq> None"
    by (rule open_files_fail) (use assms f1 in simp)
  then show ?thesis
    using c by (auto simp: connect_def split: option.splits prod.splits)
qed

text \<open>
  C3 fails on every registered file without rows that \<open>connect\<close> reaches: the lookahead read
  from it is \<open>None\<close>, and the test of the common keys on \<open>None\<close> raises \<open>TypeError\<close>
  (line 227), so that \<open>connect\<close> does not succeed.  The file is empty, or holds its
  header only.
\<close>

theorem connect_empty_file_raises:
  assumes "set (filenames self) \<subseteq> dom (tmp_read self)"
    and "filenames self = pre @ p # post" and "\<forall>q \<in> set pre. good_file d q"
    and "d p = Some f" and "readable f" and "file_rows d p = []"
  shows "fst (connect d self) = Some TypeError"
proof (rule connect_first_bad[OF assms(1,2,3)])
  fix s :: store
  assume "p \<in> dom (tmp_read s)"
  then obtain e where "tmp_read s p = Some e" by auto
  from open_files_Cons_empty[OF assms(4,5,6) this] show "fst (open_files d (p # post) s) = Some TypeError" .
qed

lemma store_ab_filenames: "filenames store_ab = [] @ a_path # [b_path]"
  by (simp add: store_ab_def add_file_def example_store_def a_path_def b_path_def Let_def)

lemma store_ab_dom: "set (filenames store_ab) \<subseteq> dom (tmp_read store_ab)"
  by (simp add: store_ab_def add_file_def example_store_def a_path_def b_path_def Let_def)

lemma store_ab_filenames2: "filenames store_ab = [a_path] @ b_path # []"
  by (simp add: store_ab_filenames)

theorem connect_empty_file_raises_witness:
  "disk_a_empty a_path = Some \<lparr>readable = True, records = []\<rparr> \<and>
   file_rows disk_a_empty b_path \<noteq> [] \<and>
   fst (connect disk_a_empty store_ab) = Some TypeError"
proof -
  have f: "disk_a_empty a_path = Some \<lparr>readable = True, records = []\<rparr>"
    by (simp add: disk_a_empty_def)
  have r: "readable \<lparr>readable = True, records = []\<rparr>" by simp
  have e: "file_rows disk_a_empty a_path = []"
    by (simp add: file_rows_def read_records_def f text_mode_Nil)
  have pre: "\<forall>q \<in> set []. good_file disk_a_empty q" by simp
  have b: "file_rows disk_a_empty b_path \<noteq> []" by code_simp
  from connect_empty_file_raises[OF store_ab_dom store_ab_filenames pre f r e] f b
  show ?thesis by simp
qed

text \<open>
  C6, as stated, fails: a registered file that exists and cannot be read makes \<open>connect\<close>
  raise the \<open>PermissionError\<close> of \<open>open\<close>, not \<open>CsvBadFilePathError\<close>.
\<close>

theorem connect_unreadable_permission_error:
  "fst (connect disk_b_denied store_ab) = Some PermissionError \<and>
   fst (connect disk_b_denied store_ab) \<noteq> Some CsvBadFilePathError"
  by code_simp

text \<open>
  C6, amended.  Whenever a registered path cannot be opened, \<open>connect\<close> raises; and
  whenever \<open>connect\<close> raises, for this or another reason, it leaves the saved timestamp
  as it was.  When the files registered before the path are opened and
  primed without error, the exception is \<open>CsvBadFilePathError\<close> for a path that does not
  exist, and the \<open>PermissionError\<close> of \<open>open\<close> for a path that exists and cannot be read.
\<close>

theorem connect_open_failure:
  "((\<exists>q \<in> set (filenames self). \<exists>x. open_read d q = Inl x) \<longrightarrow>
      fst (connect d self) \<noteq> None) \<and>
   (fst (connect d self) \<noteq> None \<longrightarrow>
      saved_timestamp (snd (connect d self)) = saved_timestamp self) \<and>
   (set (filenames self) \<subseteq> dom (tmp_read self) \<and> filenames self = pre @ p # post \<and>
    (\<forall>q \<in> set pre. good_file d q) \<longrightarrow>
      (d p = None \<longrightarrow> fst (connect d self) = Some CsvBadFilePathError) \<and>
      (\<forall>f. d p = Some f \<and> \<not> readable f \<longrightarrow> fst (connect d self) = Some PermissionError))"
proof -
  have a: "fst (connect d self) \<noteq> None"
    if "\<exists>q \<in> set (filenames self). \<exists>x. open_read d q = Inl x"
    by (rule connect_open_fail[OF that])
  have a': "saved_timestamp (snd (connect d self)) = saved_timestamp self"
    if "fst (connect d self) \<noteq> None"
    by (rule connect_failed_saved[OF that])
  have b: "fst (connect d self) = Some CsvBadFilePathError"
    if "set (filenames self) \<subseteq> dom (tmp_read self)" "filenames self = pre @ p # post"
      "\<forall>q \<in> set pre. good_file d q" "d p = None"
    by (rule connect_first_bad[OF that(1,2,3)]) (simp add: open_read_def that(4))
  have c: "fst (connect d self) = Some PermissionError"
    if "set (filenames self) \<subseteq> dom (tmp_read self)" "filenames self = pre @ p # post"
      "\<forall>q \<in> set pre. good_file d q" "d p = Some f" "\<not> readable f" for f
    by (rule connect_first_bad[OF that(1,2,3)]) (simp add: open_read_def that(4,5))
  from a a' b c show ?thesis by blast
qed

theorem connect_open_failure_witness:
  "good_file disk_b_missing a_path \<and> disk_b_missing b_path = None \<and>
   fst (connect disk_b_missing store_ab) = Some CsvBadFilePathError \<and>
   saved_timestamp (snd (connect disk_b_missing store_ab)) = saved_timestamp store_ab \<and>
   good_file disk_b_denied a_path \<and>
   fst (connect disk_b_denied store_ab) = Some PermissionError"
proof -
  have g1: "\<forall>q \<in> set [a_path]. good_file disk_b_missing q" by code_simp
  have g2: "\<forall>q \<in> set [a_path]. good_file disk_b_denied q" by code_simp
  have m: "disk_b_missing b_path = None" by (simp add: disk_b_missing_def)
  have dn: "disk_b_denied b_path = Some \<lparr>readable = False, records = []\<rparr>"
    "\<not> readable \<lparr>readable = False, records = []\<rparr>"
    by (simp_all add: disk_b_denied_def)
  have ex: "\<exists>q \<in> set (filenames store_ab). \<exists>x. open_read disk_b_missing q = Inl x"
    using m by (auto simp: store_ab_filenames open_read_def)
  from connect_open_failure[of store_ab disk_b_missing "[a_path]" b_path]
    store_ab_dom store_ab_filenames2 g1 m ex
  have 1: "fst (connect disk_b_missing store_ab) = Some CsvBadFilePathError"
    "saved_timestamp (snd (connect disk_b_missing store_ab)) = saved_timestamp store_ab"
    by blast+
  from connect_open_failure[of store_ab disk_b_denied "[a_path]" b_path]
    store_ab_dom store_ab_filenames2 g2 dn
  have 2: "fst (connect disk_b_denied store_ab) = Some PermissionError"
    by blast
  from 1 2 g1 g2 m show ?thesis by simp
qed

subsection \<open>Sorted rows\<close>

lemma sorted_dropWhile_greater:
  "sorted (map f xs) \<Longrightarrow> x \<in> set (dropWhile (\<lambda>x. f x \<le> T) xs) \<Longrightarrow> (T::int) < f x"
proof (induction xs)
  case Nil
  then show ?case by simp
next
  case (Cons a xs)
  show ?case
  proof (cases "f a \<le> T")
    case True
    with Cons show ?thesis by simp
  next
    case False
    with Cons.prems show ?thesis by auto
  qed
qed

lemma filter_takeWhile_sorted:
  assumes "sorted (map f xs)"
  shows "filter (\<lambda>x. f x = (T::int)) (takeWhile (\<lambda>x. f x \<le> T) xs) = filter (\<lambda>x. f x = T) xs"
proof -
  have "filter (\<lambda>x. f x = T) (dropWhile (\<lambda>x. f x \<le> T) xs) = []"
    using sorted_dropWhile_greater[OF assms, of _ T] by (auto simp: filter_empty_conv)
  then have "filter (\<lambda>x. f x = T) (takeWhile (\<lambda>x. f x \<le> T) xs @ dropWhile (\<lambda>x. f x \<le> T) xs) =
      filter (\<lambda>x. f x = T) (takeWhile (\<lambda>x. f x \<le> T) xs)"
    by (simp only: filter_append append_Nil2)
  then show ?thesis by simp
qed

lemma filter_dropWhile_later:
  assumes "(T::int) < T'"
  shows "filter (\<lambda>x. f x = T') (dropWhile (\<lambda>x. f x \<le> T) xs) = filter (\<lambda>x. f x = T') xs"
proof -
  have "filter (\<lambda>x. f x = T') (takeWhile (\<lambda>x. f x \<le> T) xs) = []"
    using assms by (auto simp: filter_empty_conv dest!: set_takeWhileD)
  then have "filter (\<lambda>x. f x = T') (takeWhile (\<lambda>x. f x \<le> T) xs @ dropWhile (\<lambda>x. f x \<le> T) xs) =
      filter (\<lambda>x. f x = T') (dropWhile (\<lambda>x. f x \<le> T) xs)"
    by (simp only: filter_append append_Nil)
  then show ?thesis by simp
qed

lemma sorted_map_dropWhile:
  "sorted (map f xs) \<Longrightarrow> sorted (map f (dropWhile P xs))"
proof (induction xs)
  case Nil
  then show ?case by simp
next
  case (Cons a xs)
  then show ?case by (cases "P a") auto
qed

lemma set_dropWhile_sorted:
  assumes "sorted (map f (a # xs))"
  shows "f ` set (a # xs) = insert (f a) (f ` set (dropWhile (\<lambda>x. f x \<le> f a) (a # xs)))"
proof -
  let ?P = "\<lambda>x. f x \<le> f a"
  have le: "f a \<le> f x" if "x \<in> set xs" for x
    using assms that by auto
  have split: "set xs = set (takeWhile ?P xs) \<union> set (dropWhile ?P xs)"
    by (metis set_append takeWhile_dropWhile_id)
  have tk: "f x = f a" if "x \<in> set (takeWhile ?P xs)" for x
  proof -
    from that have "x \<in> set xs" "f x \<le> f a" by (auto dest: set_takeWhileD)
    with le[of x] show ?thesis by simp
  qed
  have dw: "dropWhile ?P (a # xs) = dropWhile ?P xs" by simp
  show ?thesis
  proof (intro equalityI subsetI)
    fix y assume "y \<in> f ` set (a # xs)"
    then obtain x where x: "x \<in> set (a # xs)" "y = f x" by blast
    show "y \<in> insert (f a) (f ` set (dropWhile ?P (a # xs)))"
    proof (cases "x = a \<or> x \<in> set (takeWhile ?P xs)")
      case True
      with tk[of x] x(2) show ?thesis by auto
    next
      case False
      with x(1) split have "x \<in> set (dropWhile ?P xs)" by auto
      with x(2) dw show ?thesis by simp
    qed
  next
    fix y assume "y \<in> insert (f a) (f ` set (dropWhile ?P (a # xs)))"
    then have "y = f a \<or> (\<exists>x \<in> set (dropWhile ?P xs). y = f x)" by (auto simp only: dw)
    then show "y \<in> f ` set (a # xs)"
      using split by auto
  qed
qed

lemma sorted_list_of_set_step:
  assumes "sorted (map f (a # xs))"
  shows "sorted_list_of_set (f ` set (a # xs)) =
           (f a :: int) # sorted_list_of_set (f ` set (dropWhile (\<lambda>x. f x \<le> f a) (a # xs)))"
proof -
  let ?A = "f ` set (dropWhile (\<lambda>x. f x \<le> f a) (a # xs))"
  have gt: "\<forall>y \<in> ?A. f a < y"
    using sorted_dropWhile_greater[OF assms, of _ "f a"] by auto
  then have nin: "f a \<notin> ?A" by auto
  have "sorted_list_of_set (insert (f a) ?A) = insort (f a) (sorted_list_of_set ?A)"
    using nin by (simp add: sorted_list_of_set_insert_remove)
  also have "\<dots> = f a # sorted_list_of_set ?A"
    using gt by (intro insort_is_Cons) (auto simp: less_imp_le)
  finally show ?thesis by (simp only: set_dropWhile_sorted[OF assms])
qed


subsection \<open>The deep union never loses a key\<close>

lemma update_not_Nil: "AList.update k v al \<noteq> []"
  by (cases al) auto

lemma dict_merge_not_Nil_left: "d1 \<noteq> [] \<Longrightarrow> dict_merge d1 d2 \<noteq> []"
  by (induction d1 d2 rule: dict_merge.induct)
     (auto simp: update_not_Nil split: option.splits pyval.splits)

lemma dict_merge_not_Nil_right: "d2 \<noteq> [] \<Longrightarrow> dict_merge d1 d2 \<noteq> []"
  by (induction d1 d2 rule: dict_merge.induct)
     (auto simp: update_not_Nil dict_merge_not_Nil_left split: option.splits pyval.splits)

lemma merge_rows_not_Nil_left: "json \<noteq> [] \<Longrightarrow> merge_rows rm p rows json \<noteq> []"
  unfolding merge_rows_def
  by (induction rows arbitrary: json) (auto simp: dict_merge_not_Nil_left)

lemma merge_rows_not_Nil:
  "row \<in> set rows \<Longrightarrow> from_csvdb rm (basename p) row \<noteq> [] \<Longrightarrow> merge_rows rm p rows json \<noteq> []"
proof (induction rows arbitrary: json)
  case Nil
  then show ?case by simp
next
  case (Cons a rows)
  show ?case
  proof (cases "a = row")
    case True
    with Cons.prems(2) have "dict_merge json (from_csvdb rm (basename p) a) \<noteq> []"
      by (simp add: dict_merge_not_Nil_right)
    from merge_rows_not_Nil_left[OF this, of rm p rows] show ?thesis
      by (simp add: merge_rows_def)
  next
    case False
    with Cons.prems have "row \<in> set rows" by simp
    from Cons.IH[OF this Cons.prems(2), of "dict_merge json (from_csvdb rm (basename p) a)"]
    show ?thesis by (simp add: merge_rows_def)
  qed
qed

subsection \<open>One step of the iteration over sorted files\<close>

lemma read_files_ready:
  assumes "distinct qs"
    and "\<forall>q \<in> set qs. ready q self \<and> (\<forall>row \<in> set (pending d q self). parses row)"
    and "filenames self = p0 # ps"
  shows "\<exists>self'. read_files rm d T qs self json =
           (None, self',
            fold (\<lambda>q j. merge_rows rm q
                    (filter (\<lambda>row. ts_of row = T)
                       (takeWhile (\<lambda>row. ts_of row \<le> T) (pending d q self))) j) qs json) \<and>
         (\<forall>q \<in> set qs. ready q self' \<and>
            pending d q self' = dropWhile (\<lambda>row. ts_of row \<le> T) (pending d q self)) \<and>
         (\<forall>q. q \<notin> set qs \<longrightarrow> tmp_read self' q = tmp_read self q) \<and>
         filenames self' = filenames self \<and>
         saved_timestamp self' =
           (if p0 \<in> set qs \<and> dropWhile (\<lambda>row. ts_of row \<le> T) (pending d p0 self) \<noteq> []
            then ts_of (hd (dropWhile (\<lambda>row. ts_of row \<le> T) (pending d p0 self)))
            else saved_timestamp self)"
  using assms
proof (induction qs arbitrary: self json)
  case Nil
  then show ?case by simp
next
  case (Cons q qs)
  let ?dw = "\<lambda>p s. dropWhile (\<lambda>row. ts_of row \<le> T) (pending d p s)"
  let ?mr = "\<lambda>s p j. merge_rows rm p
                    (filter (\<lambda>row. ts_of row = T)
                       (takeWhile (\<lambda>row. ts_of row \<le> T) (pending d p s))) j"
  from Cons.prems have rq: "ready q self" and pq: "\<forall>row \<in> set (pending d q self). parses row"
    and nin: "q \<notin> set qs" and dist: "distinct qs"
    by auto
  from read_file_ready[OF rq refl pq Cons.prems(3), of rm T json] obtain self1 where
    one: "read_file rm d T q self json = (None, self1, ?mr self q json)"
    and r1: "ready q self1"
    and p1: "pending d q self1 = ?dw q self"
    and f1: "\<forall>p. p \<noteq> q \<longrightarrow> tmp_read self1 p = tmp_read self p"
    and n1: "filenames self1 = filenames self"
    and s1: "saved_timestamp self1 =
           (if q = p0 \<and> ?dw q self \<noteq> [] then ts_of (hd (?dw q self)) else saved_timestamp self)"
    by blast
  have same: "pending d p self1 = pending d p self" "ready p self1 = ready p self"
    if "p \<in> set qs" for p
  proof -
    from that nin have "p \<noteq> q" by auto
    with f1 have eq: "tmp_read self1 p = tmp_read self p" by blast
    show "pending d p self1 = pending d p self" by (rule pending_cong[OF eq])
    show "ready p self1 = ready p self" by (rule ready_cong[OF eq])
  qed
  have pre1: "\<forall>p \<in> set qs. ready p self1 \<and> (\<forall>row \<in> set (pending d p self1). parses row)"
    using Cons.prems(2) same by simp
  have fn1: "filenames self1 = p0 # ps" using n1 Cons.prems(3) by simp
  from Cons.IH[OF dist pre1 fn1, of "?mr self q json"] obtain self' where
    rest: "read_files rm d T qs self1 (?mr self q json) =
             (None, self', fold (?mr self1) qs (?mr self q json))"
    and r2: "\<forall>p \<in> set qs. ready p self' \<and> pending d p self' = ?dw p self1"
    and f2: "\<forall>p. p \<notin> set qs \<longrightarrow> tmp_read self' p = tmp_read self1 p"
    and n2: "filenames self' = filenames self1"
    and s2: "saved_timestamp self' =
           (if p0 \<in> set qs \<and> ?dw p0 self1 \<noteq> [] then ts_of (hd (?dw p0 self1))
            else saved_timestamp self1)"
    by blast
  have fold_eq: "fold (?mr self1) qs j = fold (?mr self) qs j" for j
    by (rule fold_cong) (simp_all add: same)
  have res: "read_files rm d T (q # qs) self json = (None, self', fold (?mr self) (q # qs) json)"
    using one rest fold_eq by simp
  have rdy: "\<forall>p \<in> set (q # qs). ready p self' \<and> pending d p self' = ?dw p self"
  proof
    fix p assume "p \<in> set (q # qs)"
    show "ready p self' \<and> pending d p self' = ?dw p self"
    proof (cases "p = q")
      case True
      with nin f2 have eq: "tmp_read self' p = tmp_read self1 p" by blast
      have "ready p self' = ready p self1" by (rule ready_cong[OF eq])
      moreover have "pending d p self' = pending d p self1" by (rule pending_cong[OF eq])
      ultimately show ?thesis using r1 p1 True by simp
    next
      case False
      with \<open>p \<in> set (q # qs)\<close> have "p \<in> set qs" by simp
      with r2 same(1)[OF this] show ?thesis by simp
    qed
  qed
  have frame: "\<forall>p. p \<notin> set (q # qs) \<longrightarrow> tmp_read self' p = tmp_read self p"
    using f1 f2 by auto
  have sv: "saved_timestamp self' =
           (if p0 \<in> set (q # qs) \<and> ?dw p0 self \<noteq> [] then ts_of (hd (?dw p0 self))
            else saved_timestamp self)"
  proof (cases "p0 \<in> set qs")
    case True
    with nin have "q \<noteq> p0" by auto
    with s1 s2 True same(1)[OF True] show ?thesis by simp
  next
    case False
    with s1 s2 show ?thesis by auto
  qed
  have fn: "filenames self' = filenames self" using n1 n2 by simp
  show ?case
    by (rule exI[of _ self']) (intro conjI res rdy frame fn sv)
qed

lemma merge_rows_Nil: "merge_rows rm p [] json = json"
  by (simp add: merge_rows_def)

lemma fold_merge_not_Nil:
  "json \<noteq> [] \<Longrightarrow> fold (\<lambda>q j. merge_rows rm q (g q) j) ps json \<noteq> []"
  by (induction ps arbitrary: json) (simp_all add: merge_rows_not_Nil_left)

lemma fold_skip: "fold (\<lambda>q j. j) xs json = json"
  by (induction xs) simp_all

lemma takeWhile_all_greater:
  "\<forall>x \<in> set xs. (T::int) < f x \<Longrightarrow> takeWhile (\<lambda>x. f x \<le> T) xs = []"
  by (cases xs) auto

lemma next_merged_record_exhausted:
  assumes "merge_inv rm d self" and "filenames self = p0 # ps" and "pending d p0 self = []"
  shows "\<exists>self'. next_merged_record rm d self = (Inl StopIteration, self')"
proof -
  let ?T = "saved_timestamp self"
  let ?f = "\<lambda>q j. merge_rows rm q
              (filter (\<lambda>row. ts_of row = ?T)
                 (takeWhile (\<lambda>row. ts_of row \<le> ?T) (pending d q self))) j"
  from assms(1) have dist: "distinct (filenames self)"
    and rdy: "\<forall>q \<in> set (filenames self). ready q self \<and> (\<forall>row \<in> set (pending d q self). parses row)"
    by (auto simp: merge_inv_def)
  from assms have beyond:
    "\<forall>p \<in> set (filenames self). \<forall>row \<in> set (pending d p self). ?T < ts_of row"
    by (simp add: merge_inv_def)
  from read_files_ready[OF dist rdy assms(2), of rm ?T "[]"] obtain self' where
    rf: "read_files rm d ?T (filenames self) self [] = (None, self', fold ?f (filenames self) [])"
    by blast
  have "fold ?f (filenames self) [] = fold (\<lambda>q j. j) (filenames self) []"
  proof (rule fold_cong)
    fix q assume "q \<in> set (filenames self)"
    with beyond have "takeWhile (\<lambda>row. ts_of row \<le> ?T) (pending d q self) = []"
      by (intro takeWhile_all_greater) blast
    then show "?f q = (\<lambda>j. j)" by (simp add: merge_rows_Nil)
  qed simp_all
  also have "\<dots> = []" by (rule fold_skip)
  finally have "fold ?f (filenames self) [] = []" .
  with rf show ?thesis by (simp add: next_merged_record_def)
qed

lemma next_merged_record_yield:
  assumes "merge_inv rm d self" and "filenames self = p0 # ps" and "pending d p0 self = row # rest"
  shows "\<exists>self'. next_merged_record rm d self =
           (Inr (merged_at rm (filenames self) (\<lambda>q. pending d q self) (saved_timestamp self)), self') \<and>
         merge_inv rm d self' \<and>
         filenames self' = filenames self \<and>
         (\<forall>q \<in> set (filenames self).
            pending d q self' =
              dropWhile (\<lambda>row. ts_of row \<le> saved_timestamp self) (pending d q self))"
proof -
  let ?T = "saved_timestamp self"
  let ?dw = "\<lambda>q. dropWhile (\<lambda>row. ts_of row \<le> ?T) (pending d q self)"
  let ?f = "\<lambda>q j. merge_rows rm q
              (filter (\<lambda>row. ts_of row = ?T)
                 (takeWhile (\<lambda>row. ts_of row \<le> ?T) (pending d q self))) j"
  let ?g = "\<lambda>q j. merge_rows rm q (filter (\<lambda>row. ts_of row = ?T) (pending d q self)) j"
  from assms(1) have dist: "distinct (filenames self)"
    and rdy: "\<forall>q \<in> set (filenames self). ready q self \<and> (\<forall>row \<in> set (pending d q self). parses row)"
    and srt: "\<forall>q \<in> set (filenames self). sorted (map ts_of (pending d q self))"
    by (auto simp: merge_inv_def)
  from assms have dec: "\<forall>r \<in> set (pending d p0 self). from_csvdb rm (basename p0) r \<noteq> []"
    and T: "?T = ts_of row"
    by (simp_all add: merge_inv_def)
  from read_files_ready[OF dist rdy assms(2), of rm ?T "[]"] obtain self' where
    rf: "read_files rm d ?T (filenames self) self [] = (None, self', fold ?f (filenames self) [])"
    and r': "\<forall>q \<in> set (filenames self). ready q self' \<and> pending d q self' = ?dw q"
    and fn': "filenames self' = filenames self"
    and sv': "saved_timestamp self' =
           (if p0 \<in> set (filenames self) \<and> ?dw p0 \<noteq> [] then ts_of (hd (?dw p0)) else ?T)"
    by blast
  have fg: "fold ?f (filenames self) [] = fold ?g (filenames self) []"
  proof (rule fold_cong)
    fix q assume "q \<in> set (filenames self)"
    with srt have "sorted (map ts_of (pending d q self))" by blast
    from filter_takeWhile_sorted[OF this, of ?T] show "?f q = ?g q" by simp
  qed simp_all
  have json: "fold ?g (filenames self) [] =
      merged_at rm (filenames self) (\<lambda>q. pending d q self) ?T"
    by (simp add: merged_at_def)
  have "row \<in> set (filter (\<lambda>r. ts_of r = ?T) (pending d p0 self))"
    using assms(3) T by simp
  moreover have "from_csvdb rm (basename p0) row \<noteq> []" using dec assms(3) by simp
  ultimately have "?g p0 [] \<noteq> []" by (rule merge_rows_not_Nil)
  then have "fold ?g ps (?g p0 []) \<noteq> []" by (rule fold_merge_not_Nil)
  then have ne: "fold ?g (filenames self) [] \<noteq> []" by (simp add: assms(2))
  have step: "next_merged_record rm d self =
      (Inr (merged_at rm (filenames self) (\<lambda>q. pending d q self) ?T), self')"
    using rf fg json ne by (simp add: next_merged_record_def)
  have p0in: "p0 \<in> set (filenames self)" by (simp add: assms(2))
  have inv: "merge_inv rm d self'"
    unfolding merge_inv_def
  proof (intro conjI)
    show "distinct (filenames self')" using dist fn' by simp
    show "\<forall>p \<in> set (filenames self').
         ready p self' \<and> (\<forall>row \<in> set (pending d p self'). parses row) \<and>
         sorted (map ts_of (pending d p self'))"
    proof
      fix p assume "p \<in> set (filenames self')"
      then have p: "p \<in> set (filenames self)" using fn' by simp
      with r' have a: "ready p self'" "pending d p self' = ?dw p" by auto
      from rdy p have "\<forall>r \<in> set (?dw p). parses r" by (auto dest: set_dropWhileD)
      moreover from srt p have "sorted (map ts_of (?dw p))" by (intro sorted_map_dropWhile) blast
      ultimately show "ready p self' \<and> (\<forall>row \<in> set (pending d p self'). parses row) \<and>
         sorted (map ts_of (pending d p self'))"
        using a by simp
    qed
    have pp0: "pending d p0 self' = ?dw p0" using r' p0in by blast
    have dec': "\<forall>r \<in> set (pending d p0 self'). from_csvdb rm (basename p0) r \<noteq> []"
      using dec pp0 by (auto dest: set_dropWhileD)
    have last: "case pending d p0 self' of
          [] \<Rightarrow> (\<forall>p \<in> set (filenames self'). \<forall>row \<in> set (pending d p self').
                   saved_timestamp self' < ts_of row)
        | r # _ \<Rightarrow> saved_timestamp self' = ts_of r"
    proof (cases "?dw p0")
      case Nil
      with sv' have s: "saved_timestamp self' = ?T" by (simp del: dropWhile_eq_Nil_conv)
      from pp0 Nil have pn: "pending d p0 self' = []" by (simp only:)
      have "\<forall>p \<in> set (filenames self'). \<forall>r \<in> set (pending d p self'). ?T < ts_of r"
      proof (intro ballI)
        fix p r assume "p \<in> set (filenames self')" "r \<in> set (pending d p self')"
        then have p: "p \<in> set (filenames self)" and r: "r \<in> set (?dw p)"
          using fn' r' by auto
        from srt p have "sorted (map ts_of (pending d p self))" by blast
        from sorted_dropWhile_greater[OF this r] show "?T < ts_of r" .
      qed
      with pn s show ?thesis by simp
    next
      case (Cons r rs)
      with sv' p0in have "saved_timestamp self' = ts_of r" by simp
      with Cons pp0 show ?thesis by simp
    qed
    show "case filenames self' of
        [] \<Rightarrow> True
      | p0 # _ \<Rightarrow>
          (\<forall>row \<in> set (pending d p0 self'). from_csvdb rm (basename p0) row \<noteq> []) \<and>
          (case pending d p0 self' of
             [] \<Rightarrow> (\<forall>p \<in> set (filenames self'). \<forall>row \<in> set (pending d p self').
                      saved_timestamp self' < ts_of row)
           | row # _ \<Rightarrow> saved_timestamp self' = ts_of row)"
      using dec' last by (simp add: fn' assms(2))
  qed
  from step inv fn' r' show ?thesis by blast
qed

subsection \<open>The iteration over sorted files\<close>

lemma merged_at_later:
  assumes "\<forall>q \<in> set ps. view' q = dropWhile (\<lambda>row. ts_of row \<le> T) (view q)" and "T < T'"
  shows "merged_at rm ps view' T' = merged_at rm ps view T'"
  unfolding merged_at_def
proof (rule fold_cong)
  fix q assume "q \<in> set ps"
  with assms(1) have "view' q = dropWhile (\<lambda>row. ts_of row \<le> T) (view q)" by blast
  then show "(\<lambda>j. merge_rows rm q (filter (\<lambda>row. ts_of row = T') (view' q)) j) =
             (\<lambda>j. merge_rows rm q (filter (\<lambda>row. ts_of row = T') (view q)) j)"
    using filter_dropWhile_later[OF assms(2), of ts_of "view q"] by simp
qed simp_all

lemma iterate_merge:
  "merge_inv rm d self \<Longrightarrow> filenames self = p0 # ps \<Longrightarrow>
   fst (iterate rm d self) =
     map (\<lambda>T. (T, merged_at rm (p0 # ps) (\<lambda>q. pending d q self) T))
       (sorted_list_of_set (ts_of ` set (pending d p0 self))) \<and>
   fst (snd (iterate rm d self)) = None"
proof (induction rm d self rule: iterate.induct)
  case (1 rm d self)
  show ?case
  proof (cases "pending d p0 self")
    case Nil
    from next_merged_record_exhausted[OF "1.prems" Nil] obtain self' where
      "next_merged_record rm d self = (Inl StopIteration, self')" by blast
    then have "iterate rm d self = ([], None, self')"
      by (simp add: iterate_unfold[of rm d self])
    with Nil show ?thesis by simp
  next
    case (Cons row rest)
    let ?T = "saved_timestamp self"
    let ?json = "merged_at rm (filenames self) (\<lambda>q. pending d q self) ?T"
    from next_merged_record_yield[OF "1.prems" Cons] obtain self' where
      nm: "next_merged_record rm d self = (Inr ?json, self')"
      and inv': "merge_inv rm d self'"
      and fn': "filenames self' = filenames self"
      and pd': "\<forall>q \<in> set (filenames self).
            pending d q self' = dropWhile (\<lambda>row. ts_of row \<le> ?T) (pending d q self)"
      by blast
    from "1.prems" Cons have T: "?T = ts_of row" and
      srt: "sorted (map ts_of (pending d p0 self))"
      by (simp_all add: merge_inv_def)
    have fn0: "filenames self' = p0 # ps" using fn' "1.prems"(2) by simp
    from "1.IH"[OF nm[symmetric] refl inv' fn0]
    have IH: "fst (iterate rm d self') =
        map (\<lambda>T. (T, merged_at rm (p0 # ps) (\<lambda>q. pending d q self') T))
          (sorted_list_of_set (ts_of ` set (pending d p0 self')))"
      and IHr: "fst (snd (iterate rm d self')) = None"
      by simp_all
    have p0': "pending d p0 self' = dropWhile (\<lambda>r. ts_of r \<le> ts_of row) (row # rest)"
      using pd' "1.prems"(2) Cons T by simp
    have later: "?T < T'" if "T' \<in> set (sorted_list_of_set (ts_of ` set (pending d p0 self')))" for T'
    proof -
      from that obtain r where r: "r \<in> set (pending d p0 self')" "T' = ts_of r" by auto
      from r(1) have "r \<in> set (dropWhile (\<lambda>r. ts_of r \<le> ?T) (pending d p0 self))"
        using p0' Cons T by simp
      from sorted_dropWhile_greater[OF srt this] r(2) show ?thesis by simp
    qed
    have tail: "fst (iterate rm d self') =
        map (\<lambda>T. (T, merged_at rm (p0 # ps) (\<lambda>q. pending d q self) T))
          (sorted_list_of_set (ts_of ` set (pending d p0 self')))"
      unfolding IH
    proof (rule map_cong[OF refl])
      fix T' assume "T' \<in> set (sorted_list_of_set (ts_of ` set (pending d p0 self')))"
      then have "?T < T'" by (rule later)
      from merged_at_later[OF _ this, of "p0 # ps" "\<lambda>q. pending d q self'" "\<lambda>q. pending d q self" rm]
        pd' "1.prems"(2)
      show "(T', merged_at rm (p0 # ps) (\<lambda>q. pending d q self') T') =
            (T', merged_at rm (p0 # ps) (\<lambda>q. pending d q self) T')"
        by simp
    qed
    have sl: "sorted_list_of_set (ts_of ` set (pending d p0 self)) =
        ?T # sorted_list_of_set (ts_of ` set (pending d p0 self'))"
      using sorted_list_of_set_step[of ts_of row rest] srt Cons p0' T by simp
    have unf: "iterate rm d self =
        ((?T, ?json) # fst (iterate rm d self'), fst (snd (iterate rm d self')),
         snd (snd (iterate rm d self')))"
      using nm by (simp add: iterate_unfold[of rm d self] split: prod.splits)
    show ?thesis
      using unf tail sl IHr "1.prems"(2) by simp
  qed
qed

lemma good_file_rows: "good_file d p \<Longrightarrow> file_rows d p \<noteq> []"
  by (auto simp: good_file_def file_rows_def read_records_def split: option.splits list.splits)

lemma connect_good:
  assumes "set (filenames self) \<subseteq> dom (tmp_read self)"
    and "\<forall>p \<in> set (filenames self). good_file d p"
    and "filenames self = p0 # ps" and "parses (hd (file_rows d p0))"
  shows "\<exists>self'. connect d self = (None, self') \<and>
           filenames self' = filenames self \<and>
           (\<forall>p \<in> set (filenames self). ready p self' \<and> pending d p self' = file_rows d p) \<and>
           saved_timestamp self' = ts_of (hd (file_rows d p0))"
proof -
  from close_files_ok[OF assms(1)] obtain s1 where
    c: "close_files (filenames self) self = (None, s1)"
       "dom (tmp_read s1) = dom (tmp_read self)" "filenames s1 = filenames self"
    by blast
  have "\<forall>q \<in> set (filenames s1). good_file d q \<and> q \<in> dom (tmp_read s1)"
    using assms(1,2) c(2,3) by auto
  from open_files_good[OF this] obtain s2 where
    o: "open_files d (filenames s1) s1 = (None, s2)"
       "\<forall>q \<in> set (filenames s1). ready q s2 \<and> pending d q s2 = file_rows d q"
       "filenames s2 = filenames s1"
    by blast
  have p0: "pending d p0 s2 = file_rows d p0" using o(2) c(3) assms(3) by simp
  from good_file_rows[of d p0] assms(2,3) obtain row rest where
    fr: "file_rows d p0 = row # rest" by (cases "file_rows d p0") auto
  from pending_Cons[of d p0 s2 row rest] p0 fr obtain e where
    e: "tmp_read s2 p0 = Some e" "next_line e = Row row" by auto
  have ts: "row_timestamp row = Inr (ts_of row)"
    using assms(4) fr by (simp add: parses_ts)
  have "connect d self = (None, s2\<lparr>saved_timestamp := ts_of row\<rparr>)"
    using c o e ts assms(3) by (simp add: connect_def line_timestamp_def)
  moreover have "\<forall>p \<in> set (filenames self).
      ready p (s2\<lparr>saved_timestamp := ts_of row\<rparr>) \<and>
      pending d p (s2\<lparr>saved_timestamp := ts_of row\<rparr>) = file_rows d p"
    using o(2) c(3) by (simp add: ready_def pending_def)
  ultimately show ?thesis using o(3) c(3) fr by auto
qed

lemma merged_at_cong:
  "\<forall>q \<in> set ps. view' q = view q \<Longrightarrow> merged_at rm ps view' T = merged_at rm ps view T"
  unfolding merged_at_def by (rule fold_cong) simp_all

lemma iter_all_no_files:
  assumes "filenames self = []"
  shows "iter_all rm d self = ([], None, self)"
proof -
  have "connect d self = (None, self)" using assms by (simp add: connect_def)
  moreover have "next_merged_record rm d self = (Inl StopIteration, self)"
    using assms by (simp add: next_merged_record_def)
  ultimately show ?thesis
    by (simp add: iter_all_def iterate_unfold[of rm d self])
qed

text \<open>
  C1, as stated, fails for a decoder that is opaque: with the decoder that returns the
  empty dictionary for every row, the two sorted files of the scenario are connected, the
  first file has the timestamps 1 and 2, and the iteration yields no record, the empty
  accumulator of the first step being taken for the end of the stream (line 199).
\<close>

theorem iter_all_silent_decoder:
  "sorted (map ts_of (file_rows disk_ab a_path)) \<and>
   sorted (map ts_of (file_rows disk_ab b_path)) \<and>
   fst (connect disk_ab store_ab) = None \<and>
   sorted_list_of_set (ts_of ` set (file_rows disk_ab a_path)) = [1, 2] \<and>
   fst (iter_all silent_rm disk_ab store_ab) = []"
  by code_simp

text \<open>
  C1, amended.  The registered files are distinct, each can be opened and primed by
  \<open>connect\<close> (it is readable, its header holds the common keys, it has a row), each row has
  an integer timestamp and each file is sorted ascending by it; the decoder returns a
  non-empty fragment for every row of the first registered file.  Then iterating the store
  connects it and yields, before the normal end of the stream, exactly one record for each
  distinct timestamp of the first registered file, in ascending order, and the record
  yielded at the timestamp \<open>T\<close> is the deep union of the decoded rows, of every registered
  file, whose timestamp is \<open>T\<close>.
\<close>

theorem iter_all_merged_stream:
  assumes "set (filenames self) \<subseteq> dom (tmp_read self)" and "distinct (filenames self)"
    and "\<forall>p \<in> set (filenames self).
           good_file d p \<and> (\<forall>row \<in> set (file_rows d p). parses row) \<and>
           sorted (map ts_of (file_rows d p))"
    and "case filenames self of
           [] \<Rightarrow> True
         | p0 # _ \<Rightarrow> \<forall>row \<in> set (file_rows d p0). from_csvdb rm (basename p0) row \<noteq> []"
  shows "fst (iter_all rm d self) = merged_stream rm d (filenames self) \<and>
         fst (snd (iter_all rm d self)) = None"
proof (cases "filenames self")
  case Nil
  then show ?thesis by (simp add: iter_all_no_files merged_stream_def)
next
  case (Cons p0 ps)
  from assms(3) Cons have good: "\<forall>p \<in> set (filenames self). good_file d p"
    and prs: "\<forall>p \<in> set (filenames self). \<forall>row \<in> set (file_rows d p). parses row"
    and srt: "\<forall>p \<in> set (filenames self). sorted (map ts_of (file_rows d p))"
    by auto
  from good_file_rows[of d p0] good Cons obtain row rest where
    fr: "file_rows d p0 = row # rest" by (cases "file_rows d p0") auto
  have "parses (hd (file_rows d p0))" using prs Cons fr by simp
  from connect_good[OF assms(1) good Cons this] obtain s where
    c: "connect d self = (None, s)" "filenames s = filenames self"
       "\<forall>p \<in> set (filenames self). ready p s \<and> pending d p s = file_rows d p"
       "saved_timestamp s = ts_of (hd (file_rows d p0))"
    by blast
  have p0: "pending d p0 s = row # rest" using c(3) Cons fr by simp
  have inv: "merge_inv rm d s"
    unfolding merge_inv_def
  proof (intro conjI)
    show "distinct (filenames s)" using assms(2) c(2) by simp
    show "\<forall>p \<in> set (filenames s).
         ready p s \<and> (\<forall>row \<in> set (pending d p s). parses row) \<and> sorted (map ts_of (pending d p s))"
      using c(2,3) prs srt by simp
    show "case filenames s of
        [] \<Rightarrow> True
      | p0 # _ \<Rightarrow>
          (\<forall>row \<in> set (pending d p0 s). from_csvdb rm (basename p0) row \<noteq> []) \<and>
          (case pending d p0 s of
             [] \<Rightarrow> (\<forall>p \<in> set (filenames s). \<forall>row \<in> set (pending d p s). saved_timestamp s < ts_of row)
           | row # _ \<Rightarrow> saved_timestamp s = ts_of row)"
      using assms(4) Cons c(2,4) p0 fr by simp
  qed
  have fs: "filenames s = p0 # ps" using c(2) Cons by simp
  from iterate_merge[OF inv fs]
  have it: "fst (iterate rm d s) =
      map (\<lambda>T. (T, merged_at rm (p0 # ps) (\<lambda>q. pending d q s) T))
        (sorted_list_of_set (ts_of ` set (pending d p0 s)))"
    and end_ok: "fst (snd (iterate rm d s)) = None"
    by simp_all
  have views: "merged_at rm (p0 # ps) (\<lambda>q. pending d q s) T = merged_at rm (p0 # ps) (file_rows d) T" for T
    by (rule merged_at_cong) (use c(3) Cons in simp)
  have "fst (iterate rm d s) = merged_stream rm d (filenames self)"
    using it views c(3) Cons by (simp add: merged_stream_def)
  with end_ok c(1) show ?thesis by (simp add: iter_all_def)
qed

theorem iter_all_merged_stream_witness:
  "fst (iter_all example_rm disk_ab store_ab) =
     [(1, [(''timestamp'', PStr ''1''), (''sensor'', PStr ''s1''), (''target'', PStr ''t1''),
           (''socket'', PStr ''0''), (''cpu'', PStr ''0''),
           (''A.csv'', PDict [(''power'', PStr ''40'')]),
           (''B.csv'', PDict [(''freq'', PStr ''2400'')])]),
      (2, [(''timestamp'', PStr ''2''), (''sensor'', PStr ''s1''), (''target'', PStr ''t1''),
           (''socket'', PStr ''0''), (''cpu'', PStr ''0''),
           (''A.csv'', PDict [(''power'', PStr ''41'')])])] \<and>
   fst (snd (iter_all example_rm disk_ab store_ab)) = None"
proof -
  have h2: "distinct (filenames store_ab)" by code_simp
  have h3: "\<forall>p \<in> set (filenames store_ab).
           good_file disk_ab p \<and> (\<forall>row \<in> set (file_rows disk_ab p). parses row) \<and>
           sorted (map ts_of (file_rows disk_ab p))"
    by code_simp
  have h4: "case filenames store_ab of
           [] \<Rightarrow> True
         | p0 # _ \<Rightarrow> \<forall>row \<in> set (file_rows disk_ab p0). from_csvdb example_rm (basename p0) row \<noteq> []"
    by code_simp
  have ms: "merged_stream example_rm disk_ab (filenames store_ab) =
     [(1, [(''timestamp'', PStr ''1''), (''sensor'', PStr ''s1''), (''target'', PStr ''t1''),
           (''socket'', PStr ''0''), (''cpu'', PStr ''0''),
           (''A.csv'', PDict [(''power'', PStr ''40'')]),
           (''B.csv'', PDict [(''freq'', PStr ''2400'')])]),
      (2, [(''timestamp'', PStr ''2''), (''sensor'', PStr ''s1''), (''target'', PStr ''t1''),
           (''socket'', PStr ''0''), (''cpu'', PStr ''0''),
           (''A.csv'', PDict [(''power'', PStr ''41'')])])]"
    by code_simp
  from iter_all_merged_stream[OF store_ab_dom h2 h3 h4] ms show ?thesis by simp
qed

end
